theory Spec2Isabelle
  imports Complex_Main
begin

section \<open>Conventions of the embedding\<close>

text \<open>
  The sources are \<^verbatim>\<open>kernel_iq.c\<close> (the polydispersity integrator) and
  \<^verbatim>\<open>models/multilayer_vesicle.c\<close>.

  \<^item> The integrator itself is embedded over an arbitrary type \<open>'a\<close> of numbers that only
    has the operations the C text uses (\<open>0\<close>, \<open>1\<close>, \<open>+\<close>, \<open>*\<close>, \<open><\<close>), with no law assumed
    about them.  Whatever is proved at that generality holds for every interpretation
    of the arithmetic, in particular for rounded, non-associative machine arithmetic.
  \<^item> Where a claim is about numeric values, \<^verbatim>\<open>double\<close> is read as \<^typ>\<open>real\<close>: rounding,
    infinities and NaN inputs are not part of the model.  The exceptions are written
    out: the NaN of \<^verbatim>\<open>sqrt\<close> at a negative argument is the value \<open>None\<close>; a division by
    zero gives \<open>Inf_or_nan\<close>; and \<^verbatim>\<open>view_direct\<close>, where rounding decides the sign of a
    radicand, takes the arithmetic of the platform as a parameter.
  \<^item> The \<^verbatim>\<open>int\<close> of the multilayer vesicle model is a mathematical integer with the
    32-bit range written out where the C text can leave it.
  \<^item> Arrays are lists.  A read or write outside an array is undefined in C; here such a
    read is an unspecified value and such a write does nothing, and the theorems say
    nothing about calls that make them.
  \<^item> \<^verbatim>\<open>int32_t\<close> counters and indices are \<^typ>\<open>nat\<close>; all of them are bounded by
    \<^verbatim>\<open>num_eval\<close>, so no wrap-around occurs.
  \<^item> Macros that the generated model header supplies (\<^verbatim>\<open>NUM_PARS\<close>, \<^verbatim>\<open>NUM_VALUES\<close>,
    \<^verbatim>\<open>MAX_PD\<close>, \<^verbatim>\<open>CALL_VOLUME\<close>, \<^verbatim>\<open>INVALID\<close>, \<^verbatim>\<open>CALL_IQ\<close>\<dots>, \<^verbatim>\<open>SINCOS\<close>, \<^verbatim>\<open>M_PI_180\<close>,
    \<^verbatim>\<open>M_4PI_3\<close>, \<^verbatim>\<open>sph_j1c\<close>) are parameters of the definitions.
\<close>

section \<open>Spin cross-section weights (\<^verbatim>\<open>clip\<close>, \<^verbatim>\<open>set_spins\<close>)\<close>

definition clip :: "real \<Rightarrow> real \<Rightarrow> real \<Rightarrow> real" where
  "clip v low high = (if v < low then low else (if v > high then high else v))"

text \<open>C's \<^verbatim>\<open>sqrt\<close>: a negative argument gives NaN, written \<open>None\<close>.\<close>

definition c_sqrt :: "real \<Rightarrow> real option" where
  "c_sqrt x = (if x < 0 then None else Some (sqrt x))"

text \<open>\<^verbatim>\<open>sqrt(sqrt(x))\<close>; a NaN from the inner call stays a NaN.\<close>

definition c_sqrt_sqrt :: "real \<Rightarrow> real option" where
  "c_sqrt_sqrt x = (case c_sqrt x of None \<Rightarrow> None | Some y \<Rightarrow> c_sqrt y)"

text \<open>The array \<^verbatim>\<open>spins[4]\<close> is returned as a list: dd, du, ud, uu.\<close>

definition set_spins :: "real \<Rightarrow> real \<Rightarrow> real option list" where
  "set_spins in_spin0 out_spin0 =
     (let in_spin = clip in_spin0 0 1;
          out_spin = clip out_spin0 0 1
      in [c_sqrt_sqrt ((1 - in_spin) * (1 - out_spin)),
          c_sqrt_sqrt ((1 - in_spin) * out_spin),
          c_sqrt_sqrt (in_spin * (1 - out_spin)),
          c_sqrt_sqrt (in_spin * out_spin)])"

definition mag_sld :: "real \<Rightarrow> real \<Rightarrow> real \<Rightarrow> real \<Rightarrow> real \<Rightarrow> real \<Rightarrow> real" where
  "mag_sld qx qy p mx my sld = (let perp = qy * mx - qx * my in sld + perp * p)"

section \<open>The multilayer vesicle model\<close>

text \<open>
  C's conversion \<^verbatim>\<open>(int)x\<close> truncates towards zero.  \<^verbatim>\<open>int\<close> has 32 bits: when the truncated
  value is not between \<open>-2^31\<close> and \<open>2^31 - 1\<close> the conversion is undefined, which is \<open>None\<close>.
\<close>

definition c_trunc :: "real \<Rightarrow> int" where
  "c_trunc x = (if 0 \<le> x then \<lfloor>x\<rfloor> else \<lceil>x\<rceil>)"

definition c_int_cast :: "real \<Rightarrow> int option" where
  "c_int_cast x =
     (if - 2147483648 \<le> c_trunc x \<and> c_trunc x \<le> 2147483647 then Some (c_trunc x) else None)"

text \<open>
  What a function returning \<^verbatim>\<open>double\<close> gives: a number, or an infinity or NaN (here: from
  a division by zero), or nothing defined (here: after an \<^verbatim>\<open>int\<close> overflow).
\<close>

datatype c_value = Double real | Inf_or_nan | Undefined_behaviour

text \<open>
  The \<^verbatim>\<open>do \<dots> while (ii <= n_pairs-1)\<close> loop of \<^verbatim>\<open>multilayer_vesicle_kernel\<close>.  The
  arguments \<open>ii\<close> and \<open>fval\<close> are the loop variables at the start of an iteration; the
  value is \<open>(fval, voli)\<close> at loop exit.  \<open>m43\<close> stands for \<^verbatim>\<open>M_4PI_3\<close> and \<open>sph_j1c\<close> for
  the library function of that name.
\<close>

function mlv_loop ::
  "real \<Rightarrow> (real \<Rightarrow> real) \<Rightarrow> real \<Rightarrow> real \<Rightarrow> real \<Rightarrow> real \<Rightarrow> real \<Rightarrow> int \<Rightarrow> int \<Rightarrow> real
     \<Rightarrow> real \<times> real" where
  "mlv_loop m43 sph_j1c q radius thick_shell thick_solvent sldi n_pairs ii fval =
     (let ri = radius + of_int ii * (thick_shell + thick_solvent);
          voli = m43 * ri * ri * ri;
          fval = fval + voli * sldi * sph_j1c (ri * q);
          ri = ri + thick_shell;
          voli = m43 * ri * ri * ri;
          fval = fval - voli * sldi * sph_j1c (ri * q);
          ii = ii + 1
      in if ii \<le> n_pairs - 1
         then mlv_loop m43 sph_j1c q radius thick_shell thick_solvent sldi n_pairs ii fval
         else (fval, voli))"
  by pat_completeness auto
termination
  by (relation "measure (\<lambda>(m43, sph_j1c, q, radius, thick_shell, thick_solvent, sldi, n_pairs, ii, fval).
        nat (n_pairs - ii))") auto

declare mlv_loop.simps [simp del]

text \<open>
  \<^verbatim>\<open>multilayer_vesicle_kernel\<close> for an \<^verbatim>\<open>int n_pairs\<close>.  The loop test computes
  \<^verbatim>\<open>n_pairs-1\<close>, which overflows for \<open>n_pairs = -2^31\<close>; the counter \<open>ii\<close> stays below
  \<open>n_pairs\<close>.  The last line divides by \<open>voli\<close>: for \<open>voli = 0\<close> the quotient, and with it
  the product, is an infinity or NaN.
\<close>

definition multilayer_vesicle_kernel ::
  "real \<Rightarrow> (real \<Rightarrow> real) \<Rightarrow> real \<Rightarrow> real \<Rightarrow> real \<Rightarrow> real \<Rightarrow> real \<Rightarrow> real \<Rightarrow> real \<Rightarrow> int \<Rightarrow> c_value" where
  "multilayer_vesicle_kernel m43 sph_j1c q volfraction radius thick_shell thick_solvent
       sld_solvent sld n_pairs =
     (if n_pairs - 1 < - 2147483648 then Undefined_behaviour
      else
        (let sldi = sld_solvent - sld;
             (fval, voli) = mlv_loop m43 sph_j1c q radius thick_shell thick_solvent sldi n_pairs 0 0
         in if voli = 0 then Inf_or_nan
            else Double (fval * (volfraction * (1 / 10 ^ 4) * fval / voli))))"

definition Iq ::
  "real \<Rightarrow> (real \<Rightarrow> real) \<Rightarrow> real \<Rightarrow> real \<Rightarrow> real \<Rightarrow> real \<Rightarrow> real \<Rightarrow> real \<Rightarrow> real \<Rightarrow> real \<Rightarrow> c_value" where
  "Iq m43 sph_j1c q volfraction radius thick_shell thick_solvent sld_solvent sld fp_n_pairs =
     (case c_int_cast (fp_n_pairs + 1 / 2) of
        None \<Rightarrow> Undefined_behaviour
      | Some n_pairs \<Rightarrow>
          multilayer_vesicle_kernel m43 sph_j1c q volfraction radius thick_shell thick_solvent
            sld_solvent sld n_pairs)"

text \<open>The two radii of shell pair \<open>j\<close>, and the alternating sum over the first \<open>n\<close> pairs.\<close>

definition mlv_r1 :: "real \<Rightarrow> real \<Rightarrow> real \<Rightarrow> nat \<Rightarrow> real" where
  "mlv_r1 radius thick_shell thick_solvent j = radius + real j * (thick_shell + thick_solvent)"

definition mlv_r2 :: "real \<Rightarrow> real \<Rightarrow> real \<Rightarrow> nat \<Rightarrow> real" where
  "mlv_r2 radius thick_shell thick_solvent j =
     radius + real j * (thick_shell + thick_solvent) + thick_shell"

definition mlv_sum ::
  "real \<Rightarrow> (real \<Rightarrow> real) \<Rightarrow> real \<Rightarrow> real \<Rightarrow> real \<Rightarrow> real \<Rightarrow> real \<Rightarrow> nat \<Rightarrow> real" where
  "mlv_sum m43 sph_j1c q radius thick_shell thick_solvent sldi n =
     (\<Sum>j<n. m43 * (mlv_r1 radius thick_shell thick_solvent j) ^ 3 * sldi
                  * sph_j1c (mlv_r1 radius thick_shell thick_solvent j * q)
              - m43 * (mlv_r2 radius thick_shell thick_solvent j) ^ 3 * sldi
                  * sph_j1c (mlv_r2 radius thick_shell thick_solvent j * q))"

section \<open>Orientation: \<^verbatim>\<open>view_direct\<close>, oriented symmetric form\<close>

text \<open>
  Whether the radicand of \<^verbatim>\<open>view_direct\<close> is negative is decided by rounding, so this
  function is embedded over the arithmetic of the platform: \<open>fadd\<close>, \<open>fsub\<close> and \<open>fmul\<close> are
  the operations \<open>+\<close>, \<open>-\<close> and \<open>*\<close> on doubles (negation is exact).  \<open>exact_arith\<close> is the
  arithmetic of the reals; \<open>ieee_arith\<close> rounds every result to the nearest double, ties
  to even.
\<close>

record c_arith =
  fadd :: "real \<Rightarrow> real \<Rightarrow> real"
  fsub :: "real \<Rightarrow> real \<Rightarrow> real"
  fmul :: "real \<Rightarrow> real \<Rightarrow> real"

definition exact_arith :: c_arith where
  "exact_arith = \<lparr>fadd = (+), fsub = (-), fmul = (*)\<rparr>"

text \<open>
  Rounding to double precision: \<open>to_binade\<close> scales a positive \<open>y\<close> by powers of two into
  \<open>[2^52, 2^53)\<close>, where the doubles are the integers, and counts the exponent;
  \<open>round_even\<close> rounds to the nearest integer, a tie to the even one.  The fuel \<open>1100\<close>
  covers every magnitude of the normal range of doubles; overflow and subnormal
  numbers are not modelled.
\<close>

definition round_even :: "real \<Rightarrow> int" where
  "round_even y =
     (let f = \<lfloor>y\<rfloor>; d = y - of_int f
      in if d < 1 / 2 then f else if 1 / 2 < d then f + 1 else if even f then f else f + 1)"

fun to_binade :: "nat \<Rightarrow> real \<Rightarrow> int \<Rightarrow> real \<times> int" where
  "to_binade 0 y e = (y, e)"
| "to_binade (Suc n) y e =
     (if y < 2 ^ 52 then to_binade n (2 * y) (e - 1)
      else if 2 ^ 53 \<le> y then to_binade n (y / 2) (e + 1)
      else (y, e))"

definition round_double :: "real \<Rightarrow> real" where
  "round_double x =
     (if x = 0 then 0
      else (case to_binade 1100 \<bar>x\<bar> 0 of
              (y, e) \<Rightarrow> sgn x * (if 0 \<le> e then of_int (round_even y) * 2 ^ nat e
                                   else of_int (round_even y) / 2 ^ nat (- e))))"

definition ieee_arith :: c_arith where
  "ieee_arith = \<lparr>fadd = (\<lambda>x y. round_double (x + y)), fsub = (\<lambda>x y. round_double (x - y)),
                 fmul = (\<lambda>x y. round_double (x * y))\<rparr>"

text \<open>
  \<open>sincos\<close> stands for the macro \<^verbatim>\<open>SINCOS(angle, s, c)\<close> and returns the pair \<open>(s, c)\<close>;
  \<open>pi180\<close> stands for \<^verbatim>\<open>M_PI_180\<close>; \<open>table_theta\<close> and \<open>table_phi\<close> read the fields
  \<^verbatim>\<open>table.theta\<close> and \<^verbatim>\<open>table.phi\<close>; \<open>call_iq_ac\<close> stands for \<^verbatim>\<open>CALL_IQ_AC\<close>.  Its first
  argument is the value of \<^verbatim>\<open>sqrt\<close>, which is \<open>None\<close> when that is NaN (the rounding of a
  root that exists is left out: it changes neither its sign nor whether it is NaN).
  The operations associate as in C: \<^verbatim>\<open>a*b*c\<close> is \<^verbatim>\<open>(a*b)*c\<close>, \<^verbatim>\<open>-a*b\<close> is \<^verbatim>\<open>(-a)*b\<close>.
\<close>

definition view_direct ::
  "c_arith \<Rightarrow> (real \<Rightarrow> real \<times> real) \<Rightarrow> real \<Rightarrow> ('t \<Rightarrow> real) \<Rightarrow> ('t \<Rightarrow> real)
     \<Rightarrow> (real option \<Rightarrow> real \<Rightarrow> 't \<Rightarrow> 'r)
     \<Rightarrow> real \<Rightarrow> real \<Rightarrow> real \<Rightarrow> real \<Rightarrow> 't \<Rightarrow> 'r" where
  "view_direct ar sincos pi180 table_theta table_phi call_iq_ac qx qy theta phi table =
     (let (sin_theta, cos_theta) = sincos (fmul ar theta pi180);
          (sin_phi, cos_phi) = sincos (fmul ar phi pi180);
          qa = fadd ar (fmul ar (fmul ar qx cos_phi) cos_theta) (fmul ar (fmul ar qy sin_phi) cos_theta);
          qb = fadd ar (fmul ar (- qx) sin_phi) (fmul ar qy cos_phi);
          qc = fadd ar (fmul ar (fmul ar qx sin_theta) cos_phi) (fmul ar (fmul ar qy sin_phi) sin_theta);
          (sin_theta, cos_theta) = sincos (fmul ar (table_theta table) pi180);
          (sin_phi, cos_phi) = sincos (fmul ar (table_phi table) pi180);
          dqc = fadd ar (fsub ar (fmul ar qa sin_theta) (fmul ar (fmul ar qb sin_phi) cos_theta))
                  (fmul ar (fmul ar qc cos_phi) cos_theta);
          dqa = c_sqrt (fadd ar (fadd ar (fmul ar (- dqc) dqc) (fmul ar qx qx)) (fmul ar qy qy))
      in call_iq_ac dqa dqc table)"

text \<open>The value \<^verbatim>\<open>dqc\<close> of \<^const>\<open>view_direct\<close> and the radicand by themselves, for stating
  what is passed on.\<close>

definition view_dqc ::
  "c_arith \<Rightarrow> (real \<Rightarrow> real \<times> real) \<Rightarrow> real \<Rightarrow> real \<Rightarrow> real \<Rightarrow> real \<Rightarrow> real \<Rightarrow> real \<Rightarrow> real \<Rightarrow> real" where
  "view_dqc ar sincos pi180 qx qy theta phi jitter_theta jitter_phi =
     (let (sin_theta, cos_theta) = sincos (fmul ar theta pi180);
          (sin_phi, cos_phi) = sincos (fmul ar phi pi180);
          qa = fadd ar (fmul ar (fmul ar qx cos_phi) cos_theta) (fmul ar (fmul ar qy sin_phi) cos_theta);
          qb = fadd ar (fmul ar (- qx) sin_phi) (fmul ar qy cos_phi);
          qc = fadd ar (fmul ar (fmul ar qx sin_theta) cos_phi) (fmul ar (fmul ar qy sin_phi) sin_theta);
          (sin_theta, cos_theta) = sincos (fmul ar jitter_theta pi180);
          (sin_phi, cos_phi) = sincos (fmul ar jitter_phi pi180)
      in fadd ar (fsub ar (fmul ar qa sin_theta) (fmul ar (fmul ar qb sin_phi) cos_theta))
           (fmul ar (fmul ar qc cos_phi) cos_theta))"

definition view_radicand :: "c_arith \<Rightarrow> real \<Rightarrow> real \<Rightarrow> real \<Rightarrow> real" where
  "view_radicand ar qx qy dqc =
     fadd ar (fadd ar (fmul ar (- dqc) dqc) (fmul ar qx qx)) (fmul ar qy qy)"

section \<open>The integrator \<^verbatim>\<open>KERNEL_NAME\<close>\<close>

record problem_details =
  pd_par :: "nat list"
  pd_length :: "nat list"
  pd_offset :: "nat list"
  pd_stride :: "nat list"
  num_eval :: nat
  num_weights :: nat
  num_active :: nat
  theta_par :: int

text \<open>
  What the generated model header defines.  \<open>scattering q q_index local_values\<close> is the
  block of the \<open>q_index\<close> loop that computes \<^verbatim>\<open>scattering\<close> (one of the
  \<^verbatim>\<open>CALL_IQ\<close>\<dots> dispatches, or the magnetic block); it returns the parameter block as
  well, because the magnetic block writes to it.  \<open>MAX_PD\<close> is the number of loop levels
  (at most five in the C text, any number here).
\<close>

record 'a model =
  NUM_PARS :: nat
  NUM_VALUES :: nat
  MAX_PD :: nat
  CALL_VOLUME :: "'a list \<Rightarrow> 'a"
  INVALID :: "('a list \<Rightarrow> bool) option"
  scattering :: "'a list \<Rightarrow> nat \<Rightarrow> 'a list \<Rightarrow> 'a \<times> 'a list"

text \<open>The arguments of a call that the kernel only reads (\<open>q_vec\<close> is \<^verbatim>\<open>q\<close>, \<open>values_pool\<close> is
  \<^verbatim>\<open>values\<close>).\<close>

record 'a kernel_args =
  nq :: nat
  pd_start :: nat
  pd_stop :: nat
  details :: problem_details
  values_pool :: "'a list"
  q_vec :: "'a list"
  cutoff :: 'a

text \<open>
  The variables the loops update.  \<open>idx\<close> holds \<^verbatim>\<open>i0\<close>, \<^verbatim>\<open>i1\<close>, \<dots>; \<open>visited\<close> is the output
  of the (commented-out) trace \<^verbatim>\<open>printf\<close> at the head of the loop body: the step, the
  indices and the parameter block of every cube point the body is run for.
\<close>

record 'a kstate =
  local_values :: "'a list"
  result :: "'a list"
  pd_norm :: 'a
  step :: nat
  idx :: "nat list"
  visited :: "(nat \<times> nat list \<times> 'a list) list"

text \<open>\<^verbatim>\<open>v_d[i]\<close> and \<^verbatim>\<open>w_d[i]\<close>, with \<^verbatim>\<open>pd_value = values + NUM_VALUES\<close> and
  \<^verbatim>\<open>pd_weight = pd_value + num_weights\<close>.\<close>

definition pd_value_at :: "'a model \<Rightarrow> 'a kernel_args \<Rightarrow> nat \<Rightarrow> nat \<Rightarrow> 'a" where
  "pd_value_at m a d i = values_pool a ! (NUM_VALUES m + pd_offset (details a) ! d + i)"

definition pd_weight_at :: "'a model \<Rightarrow> 'a kernel_args \<Rightarrow> nat \<Rightarrow> nat \<Rightarrow> 'a" where
  "pd_weight_at m a d i =
     values_pool a ! (NUM_VALUES m + num_weights (details a) + pd_offset (details a) ! d + i)"

text \<open>One round of the \<open>q_index\<close> loop, and the loop.\<close>

definition q_step ::
  "'a::{zero,one,plus,times,ord} model \<Rightarrow> 'a kernel_args \<Rightarrow> 'a \<Rightarrow> nat \<Rightarrow> 'a kstate \<Rightarrow> 'a kstate" where
  "q_step m a weight0 q_index st =
     (let (scat, lv) = scattering m (q_vec a) q_index (local_values st)
      in st\<lparr>local_values := lv,
            result := (result st)[q_index := result st ! q_index + weight0 * scat]\<rparr>)"

definition q_loop ::
  "'a::{zero,one,plus,times,ord} model \<Rightarrow> 'a kernel_args \<Rightarrow> 'a \<Rightarrow> 'a kstate \<Rightarrow> 'a kstate" where
  "q_loop m a weight0 st = fold (q_step m a weight0) [0..<nq a] st"

text \<open>The body of the innermost loop, from the trace to \<^verbatim>\<open>++step\<close>.\<close>

definition point_body ::
  "'a::{zero,one,plus,times,ord} model \<Rightarrow> 'a kernel_args \<Rightarrow> 'a \<Rightarrow> 'a kstate \<Rightarrow> 'a kstate" where
  "point_body m a weight0 st0 =
     (let st = st0\<lparr>visited := visited st0 @ [(step st0, idx st0, local_values st0)]\<rparr>;
          st = (if (case INVALID m of None \<Rightarrow> True | Some invalid \<Rightarrow> \<not> invalid (local_values st))
                then (if weight0 > cutoff a
                      then q_loop m a weight0
                             (st\<lparr>pd_norm := pd_norm st + weight0 * CALL_VOLUME m (local_values st)\<rparr>)
                      else st)
                else st)
      in st\<lparr>step := step st + 1\<rparr>)"

text \<open>
  The loop \<^verbatim>\<open>while (ik < nk) { \<dots> if (step >= pd_stop) break; ++ik; }\<close> of level \<open>k\<close>,
  around the loops of the levels below (\<open>inner\<close>).  Nothing inside the loop writes
  \<^verbatim>\<open>ik\<close> or \<^verbatim>\<open>nk\<close>, so the loop makes at most \<^verbatim>\<open>nk - ik\<close> rounds: the count of rounds that
  are left is the recursion argument, and \<open>0\<close> rounds left is the test \<^verbatim>\<open>ik < nk\<close> failing.
\<close>

fun pd_while ::
  "'a model \<Rightarrow> 'a kernel_args \<Rightarrow> nat \<Rightarrow> ('a \<Rightarrow> 'a kstate \<Rightarrow> 'a kstate) \<Rightarrow> 'a::{zero,one,plus,times,ord}
     \<Rightarrow> nat \<Rightarrow> 'a kstate \<Rightarrow> 'a kstate" where
  "pd_while m a k inner weight_above 0 st = st"
| "pd_while m a k inner weight_above (Suc n) st0 =
     (let i = idx st0 ! k;
          st = st0\<lparr>local_values :=
                     (local_values st0)[pd_par (details a) ! k := pd_value_at m a k i]\<rparr>;
          weightk = pd_weight_at m a k i * weight_above;
          st = inner weightk st
      in if step st \<ge> pd_stop a then st
         else pd_while m a k inner weight_above n (st\<lparr>idx := (idx st)[k := idx st ! k + 1]\<rparr>))"

text \<open>
  \<open>pd_level m a k\<close> is the nest of the loops of the levels \<open>k-1\<close>, \<dots>, \<open>0\<close> with the body
  inside, followed by the resets \<^verbatim>\<open>ik = 0\<close>.
\<close>

primrec pd_level ::
  "'a::{zero,one,plus,times,ord} model \<Rightarrow> 'a kernel_args \<Rightarrow> nat \<Rightarrow> 'a \<Rightarrow> 'a kstate \<Rightarrow> 'a kstate" where
  "pd_level m a 0 = point_body m a"
| "pd_level m a (Suc k) =
     (\<lambda>weight_above st0.
        (let st = pd_while m a k (pd_level m a k) weight_above
                    (pd_length (details a) ! k - idx st0 ! k) st0
         in st\<lparr>idx := (idx st)[k := 0]\<rparr>))"

text \<open>
  The kernel.  The parameter block has the \<open>NUM_PARS\<close> entries the first loop fills; the
  padding of the C union is left out.  The value is the final state, whose \<open>result\<close> is
  the buffer handed back.
\<close>

definition kernel ::
  "'a::{zero,one,plus,times,ord} model \<Rightarrow> 'a kernel_args \<Rightarrow> 'a list \<Rightarrow> 'a kstate" where
  "kernel m a result0 =
     (let lv = map (\<lambda>i. values_pool a ! (2 + i)) [0..<NUM_PARS m];
          pdn = (if pd_start a = 0 then 0 else result0 ! nq a);
          res = (if pd_start a = 0 then fold (\<lambda>q_index r. r[q_index := 0]) [0..<nq a] result0
                 else result0);
          ix = map (\<lambda>d. (pd_start a div pd_stride (details a) ! d) mod pd_length (details a) ! d)
                 [0..<MAX_PD m];
          st = pd_level m a (MAX_PD m) 1
                 \<lparr>local_values = lv, result = res, pd_norm = pdn, step = pd_start a,
                  idx = ix, visited = []\<rparr>
      in st\<lparr>result := (result st)[nq a := pd_norm st]\<rparr>)"

definition kernel_result ::
  "'a::{zero,one,plus,times,ord} model \<Rightarrow> 'a kernel_args \<Rightarrow> 'a list \<Rightarrow> 'a list" where
  "kernel_result m a result0 = result (kernel m a result0)"

section \<open>What the loop nest computes, point by point\<close>

text \<open>
  The definitions of this section are not translations of C text: they say, for one cube
  point \<open>s\<close> at a time, what the theorems below prove the loops do.
\<close>

text \<open>Index \<open>i_d\<close> of the cube point with linear index \<open>s\<close>, and all of them.\<close>

definition pd_index :: "problem_details \<Rightarrow> nat \<Rightarrow> nat \<Rightarrow> nat" where
  "pd_index d k s = (s div pd_stride d ! k) mod pd_length d ! k"

definition pd_indices :: "'a model \<Rightarrow> problem_details \<Rightarrow> nat \<Rightarrow> nat list" where
  "pd_indices m d s = map (\<lambda>k. pd_index d k s) [0..<MAX_PD m]"

text \<open>A well-formed descriptor: \<open>MAX_PD\<close> entries per array, \<open>pd_stride[0] = 1\<close>,
  \<open>pd_stride[k+1] = pd_stride[k] * pd_length[k]\<close>, and \<open>num_eval\<close> the product of the
  lengths.\<close>

definition wf_details :: "'a model \<Rightarrow> problem_details \<Rightarrow> bool" where
  "wf_details m d \<longleftrightarrow>
     length (pd_par d) = MAX_PD m \<and> length (pd_length d) = MAX_PD m \<and>
     length (pd_offset d) = MAX_PD m \<and>
     pd_stride d = map (\<lambda>k. prod_list (take k (pd_length d))) [0..<MAX_PD m] \<and>
     num_eval d = prod_list (pd_length d)"

text \<open>The assignments \<^verbatim>\<open>local_values.vector[pk] = vk[ik]\<close> of the levels \<open>k-1\<close>, \<dots>, \<open>0\<close>, in
  the order the loop heads make them, at the indices of point \<open>s\<close>.\<close>

primrec pd_writes :: "'a model \<Rightarrow> 'a kernel_args \<Rightarrow> nat \<Rightarrow> nat \<Rightarrow> 'a list \<Rightarrow> 'a list" where
  "pd_writes m a 0 s lv = lv"
| "pd_writes m a (Suc k) s lv =
     pd_writes m a k s (lv[pd_par (details a) ! k := pd_value_at m a k (pd_index (details a) k s)])"

definition point_values :: "'a model \<Rightarrow> 'a kernel_args \<Rightarrow> nat \<Rightarrow> 'a list" where
  "point_values m a s =
     pd_writes m a (MAX_PD m) s (map (\<lambda>i. values_pool a ! (2 + i)) [0..<NUM_PARS m])"

text \<open>The weight \<^verbatim>\<open>weightk\<close> of point \<open>s\<close> when \<open>n\<close> levels lie above level \<open>k\<close>:
  \<^verbatim>\<open>wk[ik] * (\<dots> * (w[\<dots>] * 1.0))\<close>, multiplied in the order of the C text.\<close>

primrec cum_weight ::
  "'a::{zero,one,plus,times,ord} model \<Rightarrow> 'a kernel_args \<Rightarrow> nat \<Rightarrow> nat \<Rightarrow> nat \<Rightarrow> 'a" where
  "cum_weight m a 0 k s = 1"
| "cum_weight m a (Suc n) k s =
     pd_weight_at m a k (pd_index (details a) k s) * cum_weight m a n (Suc k) s"

definition point_weight :: "'a::{zero,one,plus,times,ord} model \<Rightarrow> 'a kernel_args \<Rightarrow> nat \<Rightarrow> 'a" where
  "point_weight m a s = cum_weight m a (MAX_PD m) 0 s"

text \<open>The loop body run for point \<open>s\<close> alone, on a fresh parameter block: what it makes
  of the buffer \<open>res\<close> and of \<open>pd_norm\<close>.\<close>

definition point_step ::
  "'a::{zero,one,plus,times,ord} model \<Rightarrow> 'a kernel_args \<Rightarrow> nat \<Rightarrow> 'a list \<times> 'a \<Rightarrow> 'a list \<times> 'a" where
  "point_step m a s acc =
     (let st = point_body m a (point_weight m a s)
                 \<lparr>local_values = point_values m a s, result = fst acc, pd_norm = snd acc,
                  step = s, idx = pd_indices m (details a) s, visited = []\<rparr>
      in (result st, pd_norm st))"

text \<open>Two parameter blocks that differ at most in the slots of \<open>M\<close>.\<close>

definition agree_off :: "nat set \<Rightarrow> 'a list \<Rightarrow> 'a list \<Rightarrow> bool" where
  "agree_off M lv lv' \<longleftrightarrow> length lv = length lv' \<and> (\<forall>i. i < length lv \<and> i \<notin> M \<longrightarrow> lv ! i = lv' ! i)"

text \<open>
  The slots of \<open>M\<close> are private to the scattering block: it writes no other slot, and
  neither its value nor \<^verbatim>\<open>CALL_VOLUME\<close> nor \<^verbatim>\<open>INVALID\<close> depends on what \<open>M\<close> holds on entry.
  For the non-magnetic dispatches this holds with \<open>M = {}\<close>: they do not write the block.
  The magnetic block rewrites the magnetic SLD slots before every call of the form
  factor.
\<close>

definition private_slots :: "'a model \<Rightarrow> 'a kernel_args \<Rightarrow> nat set \<Rightarrow> bool" where
  "private_slots m a M \<longleftrightarrow>
     (\<forall>lv lv'. agree_off M lv lv' \<longrightarrow>
        CALL_VOLUME m lv = CALL_VOLUME m lv' \<and>
        (case INVALID m of None \<Rightarrow> True | Some invalid \<Rightarrow> invalid lv = invalid lv') \<and>
        (\<forall>q_index. fst (scattering m (q_vec a) q_index lv) = fst (scattering m (q_vec a) q_index lv') \<and>
                   agree_off M (snd (scattering m (q_vec a) q_index lv)) lv))"

section \<open>The invariant of the loop nest\<close>

text \<open>Two states whose buffers and \<open>pd_norm\<close> are equal and whose parameter blocks differ
  at most in the slots of \<open>M\<close>.\<close>

definition sim :: "nat set \<Rightarrow> 'a kstate \<Rightarrow> 'a kstate \<Rightarrow> bool" where
  "sim M st st' \<longleftrightarrow> agree_off M (local_values st) (local_values st') \<and>
       result st = result st' \<and> pd_norm st = pd_norm st'"

text \<open>The stride of level \<open>k\<close> as a product (\<open>num_eval\<close> for \<open>k = MAX_PD\<close>); the first step
  after \<open>s\<close> that is a multiple of it; the slots the levels below \<open>k\<close> assign.\<close>

definition stride_of :: "problem_details \<Rightarrow> nat \<Rightarrow> nat" where
  "stride_of d k = prod_list (take k (pd_length d))"

definition block_end :: "problem_details \<Rightarrow> nat \<Rightarrow> nat \<Rightarrow> nat" where
  "block_end d k s = (s div stride_of d k + 1) * stride_of d k"

definition pd_slots :: "problem_details \<Rightarrow> nat \<Rightarrow> nat set" where
  "pd_slots d k = (\<lambda>j. pd_par d ! j) ` {..<k}"

text \<open>A trace entry that is right for step \<open>t\<close>: it records \<open>t\<close>, the indices of \<open>t\<close>, and a
  parameter block that is the one of \<open>t\<close> up to the private slots.\<close>

definition visit_ok ::
  "'a model \<Rightarrow> 'a kernel_args \<Rightarrow> nat set \<Rightarrow> nat \<times> nat list \<times> 'a list \<Rightarrow> nat \<Rightarrow> bool" where
  "visit_ok m a M v t \<longleftrightarrow>
     fst v = t \<and> fst (snd v) = pd_indices m (details a) t \<and>
     agree_off M (snd (snd v)) (point_values m a t)"

text \<open>
  Where the loops of the levels below \<open>k\<close>, entered at step \<open>s\<close>, leave \<open>step\<close>: at
  \<open>pd_stop\<close> or at the end of the block of level \<open>k\<close>, but not before \<open>s + 1\<close>, the test
  coming after the body.  \<open>level_pre\<close> is what holds on entry to them and \<open>level_post\<close> what
  they establish: the buffer and \<open>pd_norm\<close> are the fold of \<^const>\<open>point_step\<close> over the steps
  in between, the indices of the levels below \<open>k\<close> are reset, and the trace has grown by
  one right entry for each of these steps.
\<close>

definition level_end :: "'a kernel_args \<Rightarrow> nat \<Rightarrow> nat \<Rightarrow> nat" where
  "level_end a k s = max (s + 1) (min (pd_stop a) (block_end (details a) k s))"

definition level_pre :: "'a model \<Rightarrow> 'a kernel_args \<Rightarrow> nat set \<Rightarrow> nat \<Rightarrow> 'a kstate \<Rightarrow> bool" where
  "level_pre m a M k st \<longleftrightarrow>
     k \<le> MAX_PD m \<and> step st < num_eval (details a) \<and>
     idx st = pd_indices m (details a) (step st) \<and>
     agree_off (M \<union> pd_slots (details a) k) (local_values st) (point_values m a (step st))"

definition level_post ::
  "'a::{zero,one,plus,times,ord} model \<Rightarrow> 'a kernel_args \<Rightarrow> nat set \<Rightarrow> nat \<Rightarrow> 'a kstate \<Rightarrow> 'a kstate \<Rightarrow> bool" where
  "level_post m a M k st st' \<longleftrightarrow>
     step st' = level_end a k (step st) \<and>
     (result st', pd_norm st') =
        fold (point_step m a) [step st..<level_end a k (step st)] (result st, pd_norm st) \<and>
     agree_off (M \<union> pd_slots (details a) k) (local_values st') (point_values m a (step st)) \<and>
     idx st' = map (\<lambda>j. if j < k then 0 else pd_index (details a) j (step st)) [0..<MAX_PD m] \<and>
     (\<exists>vs. visited st' = visited st @ vs \<and>
           list_all2 (visit_ok m a M) vs [step st..<level_end a k (step st)])"

text \<open>The steps a call runs the body for, and the buffer and \<open>pd_norm\<close> it starts from.\<close>

definition slice_points :: "'a kernel_args \<Rightarrow> nat list" where
  "slice_points a =
     [pd_start a..<max (pd_start a + 1) (min (pd_stop a) (num_eval (details a)))]"

definition start_result :: "'a::zero kernel_args \<Rightarrow> 'a list \<Rightarrow> 'a list" where
  "start_result a result0 =
     (if pd_start a = 0 then fold (\<lambda>q_index r. r[q_index := 0]) [0..<nq a] result0 else result0)"

definition start_norm :: "'a::zero kernel_args \<Rightarrow> 'a list \<Rightarrow> 'a" where
  "start_norm a result0 = (if pd_start a = 0 then 0 else result0 ! nq a)"

section \<open>Closed forms, scenarios and statements of the claims\<close>

text \<open>The parameter block on entry to round \<open>k\<close> of the \<open>q_index\<close> loop, when the loop is
  entered with block \<open>lv\<close>.\<close>

primrec q_lv :: "'a model \<Rightarrow> 'a kernel_args \<Rightarrow> nat \<Rightarrow> 'a list \<Rightarrow> 'a list" where
  "q_lv m a 0 lv = lv"
| "q_lv m a (Suc k) lv = snd (scattering m (q_vec a) k (q_lv m a k lv))"

text \<open>The buffer after the \<open>q_index\<close> loop.\<close>

definition q_result ::
  "'a::{zero,one,plus,times,ord} model \<Rightarrow> 'a kernel_args \<Rightarrow> 'a \<Rightarrow> 'a list \<Rightarrow> 'a list \<Rightarrow> 'a list" where
  "q_result m a w lv res =
     map (\<lambda>k. res ! k + w * fst (scattering m (q_vec a) k (q_lv m a k lv))) [0..<nq a]
       @ drop (nq a) res"

text \<open>
  Scenario E2 of the specification: \<open>Iq(q, p) = p\<close> for the single parameter \<open>p\<close>,
  \<open>form_volume(p) = 1\<close>, no \<^verbatim>\<open>INVALID\<close>, one polydispersity loop that drives \<open>p\<close> through
  the values \<open>1, 2, 3\<close> with the weights \<open>0.25, 0.5, 0.25\<close>.  The pool is
  \<open>scale, background, p\<close>, then the values, then the weights.
\<close>

definition e2_model :: "real model" where
  "e2_model = \<lparr>NUM_PARS = 1, NUM_VALUES = 3, MAX_PD = 1, CALL_VOLUME = (\<lambda>table. 1),
               INVALID = None, scattering = (\<lambda>qv q_index table. (table ! 0, table))\<rparr>"

definition e2_details :: problem_details where
  "e2_details = \<lparr>pd_par = [0], pd_length = [3], pd_offset = [0], pd_stride = [1],
                 num_eval = 3, num_weights = 3, num_active = 1, theta_par = - 1\<rparr>"

definition e2_args :: "nat \<Rightarrow> real list \<Rightarrow> real \<Rightarrow> nat \<Rightarrow> nat \<Rightarrow> real kernel_args" where
  "e2_args n qv c s t =
     \<lparr>nq = n, pd_start = s, pd_stop = t, details = e2_details,
      values_pool = [1, 0, 0, 1, 2, 3, 1 / 4, 1 / 2, 1 / 4], q_vec = qv, cutoff = c\<rparr>"

text \<open>
  The kernel called once per slice \<open>(s\<^sub>j, s\<^sub>j\<^sub>+\<^sub>1)\<close> of the list of bounds, in order, each
  call on the buffer the one before handed back.
\<close>

fun kernel_slices ::
  "'a::{zero,one,plus,times,ord} model \<Rightarrow> 'a kernel_args \<Rightarrow> nat list \<Rightarrow> 'a list \<Rightarrow> 'a list" where
  "kernel_slices m a (s # t # bounds) r =
     kernel_slices m a (t # bounds) (kernel_result m (a\<lparr>pd_start := s, pd_stop := t\<rparr>) r)"
| "kernel_slices m a bounds r = r"

text \<open>
  The statement "at a visited point, slot \<open>pd_par[d]\<close> holds \<open>pd_value[d][i_d]\<close> for every
  dimension \<open>d\<close>", for one entry \<open>(step, indices, parameter block)\<close> of the trace.
\<close>

definition slots_hold :: "'a model \<Rightarrow> 'a kernel_args \<Rightarrow> nat \<times> nat list \<times> 'a list \<Rightarrow> bool" where
  "slots_hold m a v \<longleftrightarrow>
     list_all (\<lambda>d. snd (snd v) ! (pd_par (details a) ! d) = pd_value_at m a d (fst (snd v) ! d))
       [0..<MAX_PD m]"

text \<open>
  A kernel compiled for two loop levels, called for a problem with one active
  dimension: level 0 drives slot 0 through the values \<open>1, 2\<close>; level 1 is idle, of
  length 1, and its descriptor entries are \<open>0\<close>, so it names slot 0 and the pool offset 0
  as well.
\<close>

definition c2_model :: "real model" where
  "c2_model = \<lparr>NUM_PARS = 1, NUM_VALUES = 3, MAX_PD = 2, CALL_VOLUME = (\<lambda>table. 1),
               INVALID = None, scattering = (\<lambda>qv q_index table. (table ! 0, table))\<rparr>"

definition c2_args :: "real kernel_args" where
  "c2_args =
     \<lparr>nq = 1, pd_start = 0, pd_stop = 2,
      details = \<lparr>pd_par = [0, 0], pd_length = [2, 1], pd_offset = [0, 0], pd_stride = [1, 2],
                 num_eval = 2, num_weights = 2, num_active = 1, theta_par = - 1\<rparr>,
      values_pool = [1, 0, 0, 1, 2, 1, 1], q_vec = [1], cutoff = 0\<rparr>"

text \<open>
  The skip policy in the words of the specification, for the cube point \<open>s\<close>: with \<open>p\<close> the
  parameter block of the point and \<open>w\<close> the product of the weights of all loop levels,
  the point is skipped when \<open>invalid(p)\<close> or \<open>w \<le> cutoff\<close>; otherwise it adds
  \<open>w * form_volume(p)\<close> to \<open>pd_norm\<close> and \<open>w * s\<^sub>k\<close> to \<open>result[k]\<close> for every \<open>k < nq\<close>.
\<close>

definition skip_policy_step ::
  "'a::{zero,one,plus,times,linorder} model \<Rightarrow> 'a kernel_args \<Rightarrow> nat \<Rightarrow> 'a list \<times> 'a \<Rightarrow> 'a list \<times> 'a" where
  "skip_policy_step m a s acc =
     (let p = point_values m a s;
          w = foldr (\<lambda>d w. pd_weight_at m a d (pd_index (details a) d s) * w) [0..<MAX_PD m] 1;
          invalid = (case INVALID m of None \<Rightarrow> False | Some f \<Rightarrow> f p)
      in if invalid \<or> w \<le> cutoff a then acc
         else (map (\<lambda>k. fst acc ! k + w * fst (scattering m (q_vec a) k (q_lv m a k p))) [0..<nq a]
                 @ drop (nq a) (fst acc),
               snd acc + w * CALL_VOLUME m p))"

text \<open>Scenario E3 of the specification: E2 with the weights \<open>0.25, 0.5, 1e-9\<close> and the
  cutoff \<open>1e-6\<close>.\<close>

definition e3_args :: "real kernel_args" where
  "e3_args =
     \<lparr>nq = 2, pd_start = 0, pd_stop = 3, details = e2_details,
      values_pool = [1, 0, 0, 1, 2, 3, 1 / 4, 1 / 2, 1 / 10 ^ 9], q_vec = [1, 2],
      cutoff = 1 / 10 ^ 6\<rparr>"

text \<open>
  A platform for \<^const>\<open>view_direct\<close>: \<^verbatim>\<open>M_PI_180\<close> as the double nearest to \<open>\<pi>/180\<close>, and
  the doubles that \<^verbatim>\<open>sin\<close> and \<^verbatim>\<open>cos\<close> return at \<open>0\<close>, at the double \<open>8 * M_PI_180\<close> (the
  second case) and at the double \<open>82 * M_PI_180\<close>, each written as an integer over a power
  of two.
\<close>

definition c5_pi180 :: real where
  "c5_pi180 = 5030569068109113 / 2 ^ 58"

definition c5_sincos :: "real \<Rightarrow> real \<times> real" where
  "c5_sincos x =
     (if x = 0 then (0, 1)
      else if x = 5030569068109113 / 2 ^ 55
           then (5014239404989977 / 2 ^ 55, 4459770905381437 / 2 ^ 52)
           else (4459770905381437 / 2 ^ 52, 2507119702494989 / 2 ^ 54))"

text \<open>
  The magnetic block of the \<open>q_index\<close> loop.  \<open>slots\<close> lists the pairs
  \<open>(_M_offset, _sld_offset)\<close> the macro \<^verbatim>\<open>SLD\<close> is expanded for (\<open>(M1, MAGNETIC_PAR1)\<close>, \<dots>, or
  \<open>(M1 + 3*sk, slds[sk])\<close>); \<open>call qx qy table\<close> is the dispatch that follows
  (\<^verbatim>\<open>CALL_IQ_A(sqrt(qsq), table)\<close> or a \<^verbatim>\<open>view_direct\<close>); \<open>spins\<close> is what \<^const>\<open>set_spins\<close>
  stored.  Besides \<^verbatim>\<open>scattering\<close> and the parameter block, the functions return the list
  of the pairs \<open>(index, axis)\<close> for which the form factor was called, in order.
\<close>

definition sld_rewrite ::
  "real list \<Rightarrow> real \<Rightarrow> nat \<Rightarrow> nat \<Rightarrow> real \<Rightarrow> real \<Rightarrow> real \<Rightarrow> bool \<Rightarrow> nat \<times> nat
     \<Rightarrow> real list \<Rightarrow> real list" where
  "sld_rewrite vals xs axis index qx qy pk spin_flip slot lv =
     (case slot of (M_offset, sld_offset) \<Rightarrow>
        lv[sld_offset := xs * (if axis \<noteq> 0
                               then (if index = 1 then - vals ! (M_offset + 2) else vals ! (M_offset + 2))
                               else mag_sld qx qy pk (vals ! M_offset) (vals ! (M_offset + 1))
                                      (if spin_flip then 0 else vals ! (sld_offset + 2)))])"

definition magnetic_axis ::
  "real list \<Rightarrow> (nat \<times> nat) list \<Rightarrow> (real \<Rightarrow> real \<Rightarrow> real list \<Rightarrow> real) \<Rightarrow> real \<Rightarrow> real
     \<Rightarrow> real \<Rightarrow> nat \<Rightarrow> real \<Rightarrow> bool \<Rightarrow> nat
     \<Rightarrow> real \<times> real list \<times> (nat \<times> nat) list \<Rightarrow> real \<times> real list \<times> (nat \<times> nat) list" where
  "magnetic_axis vals slots call qx qy xs index pk spin_flip axis acc =
     (case acc of (scat, lv, calls) \<Rightarrow>
        (let lv = fold (sld_rewrite vals xs axis index qx qy pk spin_flip) slots lv
         in (scat + call qx qy lv, lv, calls @ [(index, axis)])))"

definition magnetic_index ::
  "real list \<Rightarrow> (nat \<times> nat) list \<Rightarrow> (real \<Rightarrow> real \<Rightarrow> real list \<Rightarrow> real) \<Rightarrow> real option list
     \<Rightarrow> real list \<Rightarrow> real \<Rightarrow> real \<Rightarrow> nat
     \<Rightarrow> real \<times> real list \<times> (nat \<times> nat) list \<Rightarrow> real \<times> real list \<times> (nat \<times> nat) list" where
  "magnetic_index vals slots call spins p qx qy index acc =
     (case spins ! index of
        None \<Rightarrow> acc
      | Some xs \<Rightarrow>
          if xs > 1 / 10 ^ 8
          then (let spin_flip = (index = 1 \<or> index = 2);
                    pk = p ! index
                in fold (magnetic_axis vals slots call qx qy xs index pk spin_flip)
                     (if spin_flip then [0, 1] else [0]) acc)
          else acc)"

definition magnetic_scattering ::
  "real list \<Rightarrow> (nat \<times> nat) list \<Rightarrow> (real \<Rightarrow> real \<Rightarrow> real list \<Rightarrow> real) \<Rightarrow> real option list
     \<Rightarrow> real \<Rightarrow> real \<Rightarrow> real list \<Rightarrow> nat \<Rightarrow> real list
     \<Rightarrow> real \<times> real list \<times> (nat \<times> nat) list" where
  "magnetic_scattering vals slots call spins sin_mspin cos_mspin qv q_index lv =
     (let qx = qv ! (2 * q_index);
          qy = qv ! (2 * q_index + 1);
          qsq = qx * qx + qy * qy
      in if qsq > 1 / 10 ^ 16
         then (let p0 = (qy * cos_mspin + qx * sin_mspin) / qsq;
                   p3 = - p0;
                   p1 = (qy * sin_mspin - qx * cos_mspin) / qsq;
                   p = [p0, p1, p1, p3]
               in fold (magnetic_index vals slots call spins p qx qy) [0..<4] (0, lv, []))
         else (0, lv, []))"

text \<open>The cross-sections evaluated for spin index \<open>i\<close>: none unless \<open>spins[i] > 1e-8\<close>.\<close>

definition spin_calls :: "real option list \<Rightarrow> nat \<Rightarrow> (nat \<times> nat) list" where
  "spin_calls spins i =
     (case spins ! i of
        None \<Rightarrow> []
      | Some xs \<Rightarrow> if xs > 1 / 10 ^ 8 then (if i = 1 \<or> i = 2 then [(i, 0), (i, 1)] else [(i, 0)])
                   else [])"

text \<open>Two calls \<open>a\<close> and \<open>a'\<close> on the same model.  The weights of \<open>a'\<close> are those of \<open>a\<close> with the ones of the active dimensions scaled by
  \<open>c\<close>; everything else the kernel reads is the same, and the same points pass the
  cutoff test.\<close>

definition weights_scaled ::
  "'a::linordered_field model \<Rightarrow> 'a kernel_args \<Rightarrow> 'a kernel_args \<Rightarrow> 'a \<Rightarrow> bool" where
  "weights_scaled m a a' c \<longleftrightarrow>
     details a' = details a \<and> nq a' = nq a \<and> q_vec a' = q_vec a \<and>
     pd_start a' = pd_start a \<and> pd_stop a' = pd_stop a \<and>
     (\<forall>i<NUM_PARS m. values_pool a' ! (2 + i) = values_pool a ! (2 + i)) \<and>
     (\<forall>d<MAX_PD m. \<forall>i<pd_length (details a) ! d.
         pd_value_at m a' d i = pd_value_at m a d i \<and>
         pd_weight_at m a' d i =
           (if d < num_active (details a) then c * pd_weight_at m a d i else pd_weight_at m a d i)) \<and>
     (\<forall>s<num_eval (details a).
         (point_weight m a' s > cutoff a') = (point_weight m a s > cutoff a))"

text \<open>Buffer and \<open>pd_norm\<close> of \<open>acc'\<close> are those of \<open>acc\<close> times \<open>C\<close>, up to entry \<open>nq\<close>.\<close>

definition scaled_acc :: "'a::linordered_field kernel_args \<Rightarrow> 'a \<Rightarrow> 'a list \<times> 'a \<Rightarrow> 'a list \<times> 'a \<Rightarrow> bool" where
  "scaled_acc a C acc' acc \<longleftrightarrow>
     length (fst acc') = length (fst acc) \<and> nq a \<le> length (fst acc) \<and>
     (\<forall>k<nq a. fst acc' ! k = C * fst acc ! k) \<and> snd acc' = C * snd acc"

text \<open>The magnetic block as the \<open>scattering\<close> entry of a model: the value of \<^verbatim>\<open>scattering\<close>
  and the parameter block after it.\<close>

definition magnetic_block ::
  "real list \<Rightarrow> (nat \<times> nat) list \<Rightarrow> (real \<Rightarrow> real \<Rightarrow> real list \<Rightarrow> real) \<Rightarrow> real option list
     \<Rightarrow> real \<Rightarrow> real \<Rightarrow> real list \<Rightarrow> nat \<Rightarrow> real list \<Rightarrow> real \<times> real list" where
  "magnetic_block vals slots call spins sin_mspin cos_mspin qv q_index lv =
     (case magnetic_scattering vals slots call spins sin_mspin cos_mspin qv q_index lv of
        (scat, lv', calls) \<Rightarrow> (scat, lv'))"

text \<open>Two states of the magnetic block with the same \<^verbatim>\<open>scattering\<close> and calls, and
  parameter blocks that differ at most in the slots of \<open>M\<close>.\<close>

definition mag_rel :: "nat set \<Rightarrow> real \<times> real list \<times> (nat \<times> nat) list
    \<Rightarrow> real \<times> real list \<times> (nat \<times> nat) list \<Rightarrow> bool" where
  "mag_rel M acc acc' \<longleftrightarrow>
     fst acc = fst acc' \<and> snd (snd acc) = snd (snd acc') \<and> agree_off M (fst (snd acc)) (fst (snd acc'))"

section \<open>Theorems\<close>

subsection \<open>Spin weights\<close>







subsection \<open>Multilayer vesicle\<close>

lemma mlv_loop_sum:
  assumes "int j \<le> n_pairs - 1 \<or> j = 0"
  shows "mlv_loop m43 sph q radius ts tsol sldi n_pairs (int j) fval =
     (let n = (if n_pairs \<le> 1 then 1 else nat n_pairs) in
      (fval + (\<Sum>k=j..<n. m43 * (mlv_r1 radius ts tsol k) ^ 3 * sldi * sph (mlv_r1 radius ts tsol k * q)
              - m43 * (mlv_r2 radius ts tsol k) ^ 3 * sldi * sph (mlv_r2 radius ts tsol k * q)),
       m43 * (mlv_r2 radius ts tsol (n - 1)) ^ 3))"
  using assms
proof (induction m43 sph q radius ts tsol sldi n_pairs "int j" fval arbitrary: j rule: mlv_loop.induct)
  case (1 m43 sph q radius ts tsol sldi n_pairs fval)
  show ?case
  proof (cases "int j + 1 \<le> n_pairs - 1")
    case True
    have eq: "int j + 1 = int (Suc j)" by simp
    have IH: "mlv_loop m43 sph q radius ts tsol sldi n_pairs (int (Suc j)) fv = 
       (let n = (if n_pairs \<le> 1 then 1 else nat n_pairs) in
      (fv + (\<Sum>k=Suc j..<n. m43 * (mlv_r1 radius ts tsol k) ^ 3 * sldi * sph (mlv_r1 radius ts tsol k * q)
              - m43 * (mlv_r2 radius ts tsol k) ^ 3 * sldi * sph (mlv_r2 radius ts tsol k * q)),
       m43 * (mlv_r2 radius ts tsol (n - 1)) ^ 3))" 
      if "fv = fval + m43 * (radius + of_int (int j) * (ts + tsol)) * (radius + of_int (int j) * (ts + tsol)) * (radius + of_int (int j) * (ts + tsol)) * sldi * sph ((radius + of_int (int j) * (ts + tsol)) * q) - m43 * (radius + of_int (int j) * (ts + tsol) + ts) * (radius + of_int (int j) * (ts + tsol) + ts) * (radius + of_int (int j) * (ts + tsol) + ts) * sldi * sph ((radius + of_int (int j) * (ts + tsol) + ts) * q)" for fv
      using "1.hyps"[OF refl refl refl refl refl refl, of "Suc j"] True that by simp
    have jn: "j < nat n_pairs" "\<not> n_pairs \<le> 1" using True by auto
    show ?thesis
      apply (subst mlv_loop.simps)
      using True jn
      apply (simp add: Let_def eq IH del: of_nat_Suc)
      apply (subst (2) sum.atLeast_Suc_lessThan)
       apply simp
      apply (simp add: mlv_r1_def mlv_r2_def power3_eq_cube algebra_simps)
      done
  next
    case False
    with "1.prems" have n: "(if n_pairs \<le> 1 then 1 else nat n_pairs) = Suc j" by auto
    show ?thesis
      apply (subst mlv_loop.simps)
      using False
      apply (simp add: Let_def n del: of_nat_Suc)
      apply (simp add: mlv_r1_def mlv_r2_def power3_eq_cube algebra_simps)
      done
  qed
qed


lemma c_trunc_round: "1 \<le> round x \<Longrightarrow> c_trunc (x + 1 / 2) = round x"
  unfolding c_trunc_def round_def by (auto simp: not_le)

lemma c_int_cast_round:
  "1 \<le> round x \<Longrightarrow> round x \<le> 2147483647 \<Longrightarrow> c_int_cast (x + 1 / 2) = Some (round x)"
  by (simp add: c_int_cast_def c_trunc_round)

lemma c_int_cast_out_of_range: "c_int_cast (10 ^ 10 + 1 / 2) = None"
  by (simp add: c_int_cast_def c_trunc_def)

text \<open>
  Claim C9.  When the \<^verbatim>\<open>int n_pairs\<close> that the cast \<^verbatim>\<open>(int)(fp_n_pairs + 0.5)\<close> gives is
  \<open>round fp_n_pairs\<close> and at least \<open>1\<close>, the loop exits with \<open>fval\<close> the alternating sum \<open>S\<close>
  over the \<open>n_pairs\<close> shell pairs and with \<open>voli\<close> the volume \<open>M_4PI_3 * ro^3\<close> of the
  outermost layer, \<open>ro = radius + n_pairs * thick_shell + (n_pairs - 1) * thick_solvent\<close>,
  and the value returned is \<open>volfraction * 1e-4 * S^2 / voli\<close>: that number for
  \<open>voli \<noteq> 0\<close>, and an infinity or NaN, as the quotient is, for \<open>voli = 0\<close>.  (The cast gives
  \<open>round fp_n_pairs \<ge> 1\<close> exactly up to \<open>2^31 - 1\<close>, by \<open>c_int_cast_round\<close>; beyond, it is
  undefined.)
\<close>

theorem multilayer_vesicle_final_scaling:
  fixes fp_n_pairs m43 q volfraction radius thick_shell thick_solvent sld_solvent sld :: real
    and sph_j1c :: "real \<Rightarrow> real" and n_pairs :: int
  assumes "c_int_cast (fp_n_pairs + 1 / 2) = Some n_pairs" "n_pairs = round fp_n_pairs"
    "1 \<le> n_pairs"
  defines "n \<equiv> nat n_pairs"
  defines "ro \<equiv> radius + real n * thick_shell + (real n - 1) * thick_solvent"
  defines "S \<equiv> mlv_sum m43 sph_j1c q radius thick_shell thick_solvent (sld_solvent - sld) n"
  shows "mlv_loop m43 sph_j1c q radius thick_shell thick_solvent (sld_solvent - sld) n_pairs 0 0
           = (S, m43 * ro ^ 3)
       \<and> Iq m43 sph_j1c q volfraction radius thick_shell thick_solvent sld_solvent sld fp_n_pairs
           = (if m43 * ro ^ 3 = 0 then Inf_or_nan
              else Double (volfraction * (1 / 10 ^ 4) * S\<^sup>2 / (m43 * ro ^ 3)))"
proof -
  have n1: "1 \<le> n" "int n = n_pairs" using assms(3) by (simp_all add: n_def)
  have ne: "(if n_pairs \<le> 1 then 1 else nat n_pairs) = n"
    using assms(3) by (auto simp: n_def)
  have r2: "mlv_r2 radius thick_shell thick_solvent (n - Suc 0) = ro"
    using n1(1) by (simp add: mlv_r2_def ro_def of_nat_diff algebra_simps)
  have loop: "mlv_loop m43 sph_j1c q radius thick_shell thick_solvent (sld_solvent - sld)
            n_pairs 0 0 = (S, m43 * ro ^ 3)"
    using mlv_loop_sum[of 0 n_pairs m43 sph_j1c q radius thick_shell thick_solvent
        "sld_solvent - sld" 0]
    by (simp add: Let_def ne r2 S_def mlv_sum_def lessThan_atLeast0)
  have k: "\<not> n_pairs - 1 < - 2147483648" using assms(3) by simp
  have "Iq m43 sph_j1c q volfraction radius thick_shell thick_solvent sld_solvent sld fp_n_pairs
           = (if m43 * ro ^ 3 = 0 then Inf_or_nan
              else Double (volfraction * (1 / 10 ^ 4) * S\<^sup>2 / (m43 * ro ^ 3)))"
    unfolding Iq_def assms(1) option.case multilayer_vesicle_kernel_def Let_def loop prod.case
    using k by (simp add: power2_eq_square)
  with loop show ?thesis by (rule conjI)
qed

theorem multilayer_vesicle_final_scaling_witness:
  "c_int_cast (2 + 1 / 2) = Some 2 \<and> (2 :: int) = round (2 :: real) \<and> (1 :: int) \<le> 2 \<and>
   Iq 1 (\<lambda>x. 1) 1 10000 1 1 1 2 1 2 = Double (121 / 4)"
proof -
  have h: "c_int_cast (2 + 1 / 2) = Some 2" "(2 :: int) = round (2 :: real)" "(1 :: int) \<le> 2"
    by (simp_all add: c_int_cast_def c_trunc_def)
  from multilayer_vesicle_final_scaling[OF h, of 1 "\<lambda>x. 1" 1 1 1 1 2 1 10000]
  have v: "Iq 1 (\<lambda>x. 1) 1 10000 1 1 1 2 1 2 = Double (121 / 4)"
    by (simp add: mlv_sum_def mlv_r1_def mlv_r2_def numeral_2_eq_2 lessThan_Suc)
  show ?thesis by (intro conjI h v)
qed

subsection \<open>Parameter blocks that agree off a set of slots\<close>

lemma agree_off_refl: "agree_off M lv lv"
  by (simp add: agree_off_def)

lemma agree_off_sym: "agree_off M lv lv' \<Longrightarrow> agree_off M lv' lv"
  by (simp add: agree_off_def)

lemma agree_off_trans: "agree_off M lv lv' \<Longrightarrow> agree_off M lv' lv'' \<Longrightarrow> agree_off M lv lv''"
  by (simp add: agree_off_def)

lemma agree_off_mono: "agree_off M lv lv' \<Longrightarrow> M \<subseteq> M' \<Longrightarrow> agree_off M' lv lv'"
  by (auto simp: agree_off_def)

lemma agree_off_update:
  "agree_off (insert p M) lv lv' \<Longrightarrow> agree_off M (lv[p := v]) (lv'[p := v])"
  by (cases "p < length lv") (auto simp: agree_off_def nth_list_update)

lemma agree_off_update_left:
  "agree_off M lv lv' \<Longrightarrow> p \<in> M \<Longrightarrow> agree_off M (lv[p := v]) lv'"
  by (cases "p < length lv") (auto simp: agree_off_def nth_list_update)

lemma agree_off_empty: "agree_off {} lv lv' \<longleftrightarrow> lv = lv'"
  by (auto simp: agree_off_def list_eq_iff_nth_eq)

subsection \<open>The q loop and the loop body on blocks that agree off the private slots\<close>

lemma private_slots_volume:
  "private_slots m a M \<Longrightarrow> agree_off M lv lv' \<Longrightarrow> CALL_VOLUME m lv = CALL_VOLUME m lv'"
  by (simp add: private_slots_def)

lemma private_slots_invalid:
  "private_slots m a M \<Longrightarrow> agree_off M lv lv' \<Longrightarrow> INVALID m = Some invalid \<Longrightarrow> invalid lv = invalid lv'"
  unfolding private_slots_def by (erule allE[of _ lv], erule allE[of _ lv']) simp

lemma private_slots_fst:
  "private_slots m a M \<Longrightarrow> agree_off M lv lv' \<Longrightarrow>
     fst (scattering m (q_vec a) qi lv) = fst (scattering m (q_vec a) qi lv')"
  by (simp add: private_slots_def)

lemma private_slots_snd:
  "private_slots m a M \<Longrightarrow> agree_off M (snd (scattering m (q_vec a) qi lv)) lv"
  unfolding private_slots_def by (erule allE[of _ lv], erule allE[of _ lv]) (simp add: agree_off_refl)

lemma q_step_frame:
  "pd_norm (q_step m a w qi st) = pd_norm st \<and> step (q_step m a w qi st) = step st \<and>
   idx (q_step m a w qi st) = idx st \<and> visited (q_step m a w qi st) = visited st"
  by (simp add: q_step_def split: prod.splits)

lemma q_step_sim:
  assumes "private_slots m a M" "sim M st st'"
  shows "sim M (q_step m a w qi st) (q_step m a w qi st')"
proof -
  from assms(2) have ag: "agree_off M (local_values st) (local_values st')"
    and r: "result st = result st'" and n: "pd_norm st = pd_norm st'" by (simp_all add: sim_def)
  have f: "fst (scattering m (q_vec a) qi (local_values st)) = fst (scattering m (q_vec a) qi (local_values st'))"
    by (rule private_slots_fst[OF assms(1) ag])
  have s1: "agree_off M (snd (scattering m (q_vec a) qi (local_values st))) (local_values st)"
    by (rule private_slots_snd[OF assms(1)])
  have s2: "agree_off M (snd (scattering m (q_vec a) qi (local_values st'))) (local_values st')"
    by (rule private_slots_snd[OF assms(1)])
  have "agree_off M (snd (scattering m (q_vec a) qi (local_values st)))
          (snd (scattering m (q_vec a) qi (local_values st')))"
    using s1 ag agree_off_sym[OF s2] by (blast intro: agree_off_trans)
  then show ?thesis using f r n
    by (simp add: sim_def q_step_def case_prod_beta)
qed

lemma q_step_keeps:
  assumes "private_slots m a M"
  shows "agree_off M (local_values (q_step m a w qi st)) (local_values st)"
  using private_slots_snd[OF assms] by (simp add: q_step_def case_prod_beta)

lemma fold_q_step_frame:
  "pd_norm (fold (q_step m a w) qs st) = pd_norm st \<and> step (fold (q_step m a w) qs st) = step st \<and>
   idx (fold (q_step m a w) qs st) = idx st \<and> visited (fold (q_step m a w) qs st) = visited st"
  by (induction qs arbitrary: st) (simp_all add: q_step_frame)

lemma fold_q_step_sim:
  assumes "private_slots m a M"
  shows "sim M st st' \<Longrightarrow> sim M (fold (q_step m a w) qs st) (fold (q_step m a w) qs st')"
  by (induction qs arbitrary: st st') (simp_all add: q_step_sim[OF assms])

lemma fold_q_step_keeps:
  assumes "private_slots m a M"
  shows "agree_off M (local_values (fold (q_step m a w) qs st)) (local_values st)"
proof (induction qs arbitrary: st)
  case Nil show ?case by (simp add: agree_off_refl)
next
  case (Cons x qs)
  show ?case using Cons[of "q_step m a w x st"] q_step_keeps[OF assms, of w x st]
    by (auto intro: agree_off_trans)
qed

lemma point_body_frame:
  "step (point_body m a w st) = step st + 1 \<and> idx (point_body m a w st) = idx st \<and>
   visited (point_body m a w st) = visited st @ [(step st, idx st, local_values st)]"
  by (simp add: point_body_def Let_def q_loop_def fold_q_step_frame)

lemma point_body_sim:
  assumes "private_slots m a M" "sim M st st'"
  shows "sim M (point_body m a w st) (point_body m a w st')"
proof -
  from assms(2) have ag: "agree_off M (local_values st) (local_values st')"
    and r: "result st = result st'" and n: "pd_norm st = pd_norm st'" by (simp_all add: sim_def)
  have v: "CALL_VOLUME m (local_values st) = CALL_VOLUME m (local_values st')"
    by (rule private_slots_volume[OF assms(1) ag])
  have i: "(case INVALID m of None \<Rightarrow> True | Some invalid \<Rightarrow> invalid (local_values st) = invalid (local_values st'))"
    using private_slots_invalid[OF assms(1) ag] by (simp split: option.splits)
  have s: "sim M (st\<lparr>visited := vs, pd_norm := pd_norm st + w * CALL_VOLUME m (local_values st)\<rparr>)
                 (st'\<lparr>visited := vs', pd_norm := pd_norm st' + w * CALL_VOLUME m (local_values st')\<rparr>)" for vs vs'
    using ag r n v by (simp add: sim_def)
  have s0: "sim M (st\<lparr>visited := vs\<rparr>) (st'\<lparr>visited := vs'\<rparr>)" for vs vs'
    using ag r n by (simp add: sim_def)
  show ?thesis
    using i fold_q_step_sim[OF assms(1) s] s0
    by (auto simp: point_body_def Let_def q_loop_def sim_def split: option.splits)
qed

lemma point_body_keeps:
  assumes "private_slots m a M"
  shows "agree_off M (local_values (point_body m a w st)) (local_values st)"
  using fold_q_step_keeps[OF assms, of w "[0..<nq a]"
      "st\<lparr>visited := visited st @ [(step st, idx st, local_values st)],
           pd_norm := pd_norm st + w * CALL_VOLUME m (local_values st)\<rparr>"]
  by (auto simp: point_body_def Let_def q_loop_def agree_off_refl)

text \<open>The body at point \<open>s\<close>, in terms of \<^const>\<open>point_step\<close>.\<close>

lemma point_body_point_step:
  assumes "private_slots m a M" "agree_off M (local_values st) (point_values m a s)"
  shows "(result (point_body m a (point_weight m a s) st), pd_norm (point_body m a (point_weight m a s) st))
           = point_step m a s (result st, pd_norm st)"
proof -
  have "sim M st \<lparr>local_values = point_values m a s, result = result st, pd_norm = pd_norm st,
                  step = s, idx = pd_indices m (details a) s, visited = []\<rparr>"
    using assms(2) by (simp add: sim_def)
  from point_body_sim[OF assms(1) this, of "point_weight m a s"]
  show ?thesis by (simp add: point_step_def sim_def Let_def)
qed

subsection \<open>Mixed-radix arithmetic\<close>

lemma block_bounds:
  fixes S :: nat assumes "0 < S"
  shows "(s div S) * S \<le> s" and "s < (s div S + 1) * S"
  using dividend_less_div_times[OF assms, of s] by (simp_all add: algebra_simps)

lemma block_same_div:
  fixes S :: nat assumes "0 < S" "s \<le> t" "t < (s div S + 1) * S"
  shows "t div S = s div S"
proof -
  have "s div S \<le> t div S" using assms(2) by (rule div_le_mono)
  moreover have "t div S < s div S + 1" using assms(1,3) by (simp add: div_less_iff_less_mult)
  ultimately show ?thesis by simp
qed

lemma next_block_step:
  fixes S n :: nat
  assumes "0 < S" "0 < n" "(s div S) mod n + 1 < n"
  shows "((s div S + 1) * S) div (S * n) = s div (S * n)"
    and "(((s div S + 1) * S) div S) mod n = (s div S) mod n + 1"
    and "(s div S + 1) * S < (s div (S * n) + 1) * (S * n)"
proof -
  let ?a = "s div S"
  have a: "?a = (?a div n) * n + ?a mod n" by simp
  have d: "(?a + 1) div n = ?a div n"
    using assms(3) by (simp add: div_Suc mod_Suc)
  have m: "(?a + 1) mod n = ?a mod n + 1"
    using assms(3) by (simp add: mod_Suc)
  have "((?a + 1) * S) div (S * n) = ((?a + 1) * S div S) div n"
    by (simp add: div_mult2_eq)
  also have "\<dots> = ?a div n" using assms(1) d by simp
  also have "\<dots> = s div (S * n)" by (simp add: div_mult2_eq)
  finally show "((s div S + 1) * S) div (S * n) = s div (S * n)" .
  show "(((s div S + 1) * S) div S) mod n = (s div S) mod n + 1"
    using assms(1) m by simp
  have "?a + 1 < (?a div n + 1) * n"
  proof -
    have r: "?a div n * n + n = (?a div n + 1) * n" by simp
    have "?a + 1 = (?a div n) * n + (?a mod n + 1)" using div_mult_mod_eq[of ?a n] by linarith
    also have "\<dots> < (?a div n) * n + n" using assms(3) by linarith
    also note r
    finally show ?thesis .
  qed
  then have "(?a + 1) * S < ((?a div n + 1) * n) * S" using assms(1) by (rule mult_less_mono1)
  also have "((?a div n + 1) * n) * S = (s div (S * n) + 1) * (S * n)"
    by (simp only: div_mult2_eq mult_ac)
  finally show "(s div S + 1) * S < (s div (S * n) + 1) * (S * n)" .
qed

lemma next_block_last:
  fixes S n :: nat
  assumes "0 < S" "0 < n" "\<not> (s div S) mod n + 1 < n"
  shows "(s div S + 1) * S = (s div (S * n) + 1) * (S * n)"
proof -
  let ?a = "s div S"
  have "?a mod n < n" using assms(2) by simp
  with assms(3) have e: "?a mod n + 1 = n" by linarith
  have r: "?a div n * n + n = (?a div n + 1) * n" by simp
  have "?a + 1 = (?a div n) * n + n" using div_mult_mod_eq[of ?a n] e by linarith
  then have "?a + 1 = (?a div n + 1) * n" by (simp only: r)
  then have "(?a + 1) * S = ((?a div n + 1) * n) * S" by (rule arg_cong)
  also have "\<dots> = (s div (S * n) + 1) * (S * n)" by (simp only: div_mult2_eq mult_ac)
  finally show ?thesis .
qed

lemma block_le_next:
  fixes S n :: nat
  assumes "0 < S" "0 < n"
  shows "(s div S + 1) * S \<le> (s div (S * n) + 1) * (S * n)"
  using next_block_step(3)[OF assms, of s] next_block_last[OF assms, of s]
  by (cases "(s div S) mod n + 1 < n") simp_all

lemma digit_of_multiple:
  fixes S n :: nat
  assumes "0 < S" "S * n dvd B"
  shows "(B div S) mod n = 0"
proof -
  from assms(2) obtain c where "B = S * n * c" by (auto simp: dvd_def)
  then have "B div S = n * c" using assms(1) by (simp add: mult.assoc)
  then show ?thesis by simp
qed

lemma div_coarser:
  fixes S T :: nat
  assumes "S dvd T" "t div S = s div S"
  shows "t div T = s div T"
proof -
  from assms(1) obtain c where "T = S * c" by (auto simp: dvd_def)
  then show ?thesis using assms(2) by (simp add: div_mult2_eq)
qed

lemma block_end_le_total:
  fixes S T :: nat
  assumes "0 < S" "S dvd T" "s < T"
  shows "(s div S + 1) * S \<le> T"
proof -
  from assms(2) obtain c where T: "T = S * c" by (auto simp: dvd_def)
  have "s div S < c" using assms(1,3) T by (simp add: div_less_iff_less_mult mult.commute)
  then have "s div S + 1 \<le> c" by simp
  then have "(s div S + 1) * S \<le> c * S" by (rule mult_le_mono1)
  then show ?thesis by (simp add: T mult.commute)
qed

subsection \<open>Strides as partial products\<close>

lemma prod_take_Suc: "k < length ns \<Longrightarrow> prod_list (take (Suc k) ns) = prod_list (take k ns) * ns ! k"
  by (simp add: take_Suc_conv_app_nth)

lemma prod_take_dvd: "j \<le> k \<Longrightarrow> prod_list (take j ns) dvd prod_list (take k (ns :: nat list))"
proof -
  assume "j \<le> k"
  then have "take k ns = take j ns @ take (k - j) (drop j ns)"
    by (metis le_add_diff_inverse take_add)
  then show ?thesis by (metis dvd_triv_left prod_list.append)
qed

lemma prod_take_pos: "0 < prod_list ns \<Longrightarrow> 0 < prod_list (take k (ns :: nat list))"
  using prod_take_dvd[of k "length ns" ns] by (cases "k \<le> length ns") (auto intro: dvd_pos_nat)

lemma prod_pos_nth: "0 < prod_list ns \<Longrightarrow> k < length ns \<Longrightarrow> 0 < (ns :: nat list) ! k"
proof -
  assume "0 < prod_list ns" "k < length ns"
  then have "0 \<notin> set ns" "ns ! k \<in> set ns" using prod_list_zero_iff[of ns] by simp_all
  then show ?thesis by (metis gr0I)
qed

subsection \<open>Indices of a well-formed descriptor\<close>

lemma pd_slots_Suc: "pd_slots d (Suc k) = insert (pd_par d ! k) (pd_slots d k)"
  by (simp add: pd_slots_def lessThan_Suc)

lemma pd_slots_mono: "j \<le> k \<Longrightarrow> pd_slots d j \<subseteq> pd_slots d k"
  by (auto simp: pd_slots_def)

lemma wf_stride: "wf_details m d \<Longrightarrow> k < MAX_PD m \<Longrightarrow> pd_stride d ! k = stride_of d k"
  by (simp add: wf_details_def stride_of_def)

lemma wf_index:
  "wf_details m d \<Longrightarrow> k < MAX_PD m \<Longrightarrow> pd_index d k s = (s div stride_of d k) mod pd_length d ! k"
  by (simp add: pd_index_def wf_stride)

lemma wf_total: "wf_details m d \<Longrightarrow> num_eval d = stride_of d (MAX_PD m)"
  by (simp add: wf_details_def stride_of_def)

lemma stride_Suc:
  "wf_details m d \<Longrightarrow> k < MAX_PD m \<Longrightarrow> stride_of d (Suc k) = stride_of d k * pd_length d ! k"
  by (simp add: wf_details_def stride_of_def prod_take_Suc)

lemma stride_dvd: "j \<le> k \<Longrightarrow> stride_of d j dvd stride_of d k"
  by (simp add: stride_of_def prod_take_dvd)

lemma stride_pos: "wf_details m d \<Longrightarrow> s < num_eval d \<Longrightarrow> 0 < stride_of d k"
  unfolding stride_of_def wf_details_def by (intro prod_take_pos) simp

lemma length_pos: "wf_details m d \<Longrightarrow> s < num_eval d \<Longrightarrow> k < MAX_PD m \<Longrightarrow> 0 < pd_length d ! k"
  unfolding wf_details_def by (intro prod_pos_nth) simp_all

lemma block_end_0: "block_end d 0 s = s + 1"
  by (simp add: block_end_def stride_of_def)

lemma block_end_gt: "wf_details m d \<Longrightarrow> s < num_eval d \<Longrightarrow> s < block_end d k s"
  unfolding block_end_def by (rule block_bounds(2)) (rule stride_pos)

lemma block_end_le_num_eval:
  assumes "wf_details m d" "s < num_eval d" "k \<le> MAX_PD m"
  shows "block_end d k s \<le> num_eval d"
  unfolding block_end_def wf_total[OF assms(1)]
  using assms stride_pos[OF assms(1,2)] stride_dvd[OF assms(3)]
  by (intro block_end_le_total) (simp_all add: wf_total)

lemma block_end_mono:
  assumes "wf_details m d" "s < num_eval d" "k < MAX_PD m"
  shows "block_end d k s \<le> block_end d (Suc k) s"
  unfolding block_end_def stride_Suc[OF assms(1,3)]
  by (rule block_le_next[OF stride_pos[OF assms(1,2)] length_pos[OF assms]])

lemma same_block_index:
  assumes "wf_details m d" "t div stride_of d k = s div stride_of d k" "k \<le> j" "j < MAX_PD m"
  shows "pd_index d j t = pd_index d j s"
  using div_coarser[OF stride_dvd[OF assms(3)] assms(2)] by (simp add: wf_index[OF assms(1,4)])

lemma in_block_same_div:
  assumes "wf_details m d" "s < num_eval d" "s \<le> t" "t < block_end d k s"
  shows "t div stride_of d k = s div stride_of d k"
  using assms(3,4) unfolding block_end_def by (intro block_same_div stride_pos[OF assms(1,2)])

lemma block_end_same:
  "t div stride_of d k = s div stride_of d k \<Longrightarrow> block_end d k t = block_end d k s"
  by (simp add: block_end_def)

lemma block_end_div:
  assumes "wf_details m d" "s < num_eval d"
  shows "block_end d k s div stride_of d k = s div stride_of d k + 1"
  using stride_pos[OF assms, of k] by (simp add: block_end_def)

text \<open>Stepping to the next block of level \<open>k\<close> when index \<open>k\<close> is not yet at its last value.\<close>

lemma next_block:
  assumes wf: "wf_details m d" and s: "s < num_eval d" and k: "k < MAX_PD m"
    and more: "pd_index d k s + 1 < pd_length d ! k"
  shows "block_end d k s div stride_of d (Suc k) = s div stride_of d (Suc k)"
    and "pd_index d k (block_end d k s) = pd_index d k s + 1"
    and "block_end d k s < block_end d (Suc k) s"
    and "j < k \<Longrightarrow> pd_index d j (block_end d k s) = 0"
proof -
  note S = stride_pos[OF wf s, of k] and n = length_pos[OF wf s k]
  from more have more': "(s div stride_of d k) mod pd_length d ! k + 1 < pd_length d ! k"
    by (simp add: wf_index[OF wf k])
  show "block_end d k s div stride_of d (Suc k) = s div stride_of d (Suc k)"
    unfolding block_end_def stride_Suc[OF wf k] by (rule next_block_step(1)[OF S n more'])
  show "pd_index d k (block_end d k s) = pd_index d k s + 1"
    unfolding wf_index[OF wf k] block_end_def by (rule next_block_step(2)[OF S n more'])
  show "block_end d k s < block_end d (Suc k) s"
    unfolding block_end_def stride_Suc[OF wf k] by (rule next_block_step(3)[OF S n more'])
  show "pd_index d j (block_end d k s) = 0" if "j < k"
  proof -
    have jm: "j < MAX_PD m" using that k by simp
    have "stride_of d (Suc j) dvd stride_of d k" using that by (intro stride_dvd) simp
    then have "stride_of d j * pd_length d ! j dvd block_end d k s"
      by (simp add: stride_Suc[OF wf jm] block_end_def)
    from digit_of_multiple[OF stride_pos[OF wf s, of j] this]
    show ?thesis by (simp add: wf_index[OF wf jm])
  qed
qed

lemma last_block:
  assumes wf: "wf_details m d" and s: "s < num_eval d" and k: "k < MAX_PD m"
    and last: "\<not> pd_index d k s + 1 < pd_length d ! k"
  shows "block_end d k s = block_end d (Suc k) s"
  using last unfolding block_end_def stride_Suc[OF wf k] wf_index[OF wf k]
  by (intro next_block_last stride_pos[OF wf s] length_pos[OF wf s k])

lemma index_less:
  "wf_details m d \<Longrightarrow> s < num_eval d \<Longrightarrow> k < MAX_PD m \<Longrightarrow> pd_index d k s < pd_length d ! k"
  by (simp add: wf_index length_pos)

subsection \<open>Weights and parameter blocks of points in one block\<close>

lemma cum_weight_same:
  "(\<And>j. k \<le> j \<Longrightarrow> j < k + n \<Longrightarrow> pd_index (details a) j t = pd_index (details a) j s)
     \<Longrightarrow> cum_weight m a n k t = cum_weight m a n k s"
  by (induction n arbitrary: k) simp_all

lemma length_pd_writes: "length (pd_writes m a k s lv) = length lv"
  by (induction k arbitrary: lv) simp_all

lemma pd_writes_untouched: "j \<notin> pd_slots (details a) k \<Longrightarrow> pd_writes m a k s lv ! j = lv ! j"
  by (induction k arbitrary: lv) (auto simp: pd_slots_Suc)

lemma pd_writes_off: "agree_off (pd_slots (details a) k) (pd_writes m a k s lv) lv"
  by (simp add: agree_off_def length_pd_writes pd_writes_untouched)

lemma pd_writes_agree:
  "agree_off A lv lv' \<Longrightarrow>
   (\<And>j. j < k \<Longrightarrow> pd_par (details a) ! j \<in> A \<or> pd_index (details a) j s = pd_index (details a) j t)
   \<Longrightarrow> agree_off A (pd_writes m a k s lv) (pd_writes m a k t lv')"
proof (induction k arbitrary: lv lv')
  case 0 then show ?case by simp
next
  case (Suc k)
  have "agree_off A (lv[pd_par (details a) ! k := pd_value_at m a k (pd_index (details a) k s)])
                   (lv'[pd_par (details a) ! k := pd_value_at m a k (pd_index (details a) k t)])"
  proof (cases "pd_par (details a) ! k \<in> A")
    case True
    have "agree_off A (lv[pd_par (details a) ! k := pd_value_at m a k (pd_index (details a) k s)]) lv'"
      by (rule agree_off_update_left[OF Suc.prems(1) True])
    from agree_off_update_left[OF agree_off_sym[OF this] True]
    show ?thesis by (rule agree_off_sym)
  next
    case False
    with Suc.prems(2)[of k] have "pd_index (details a) k s = pd_index (details a) k t" by simp
    moreover have "agree_off (insert (pd_par (details a) ! k) A) lv lv'"
      by (rule agree_off_mono[OF Suc.prems(1)]) auto
    ultimately show ?thesis by (simp add: agree_off_update)
  qed
  then show ?case using Suc.prems(2) by (simp add: Suc.IH)
qed

lemma point_values_same_block:
  assumes "wf_details m (details a)" "k \<le> MAX_PD m"
    and "\<And>j. k \<le> j \<Longrightarrow> j < MAX_PD m \<Longrightarrow> pd_index (details a) j s = pd_index (details a) j t"
  shows "agree_off (pd_slots (details a) k) (point_values m a s) (point_values m a t)"
  unfolding point_values_def
proof (rule pd_writes_agree[OF agree_off_refl])
  fix j assume "j < MAX_PD m"
  then show "pd_par (details a) ! j \<in> pd_slots (details a) k \<or> pd_index (details a) j s = pd_index (details a) j t"
    using assms(3)[of j] by (cases "j < k") (auto simp: pd_slots_def)
qed

lemma point_values_slot:
  assumes "k < MAX_PD m" "pd_par (details a) ! k \<notin> pd_slots (details a) k"
    "pd_par (details a) ! k < NUM_PARS m"
  shows "point_values m a s ! (pd_par (details a) ! k) = pd_value_at m a k (pd_index (details a) k s)"
proof -
  have "k < K \<Longrightarrow> pd_par (details a) ! k < length lv \<Longrightarrow>
        pd_writes m a K s lv ! (pd_par (details a) ! k) = pd_value_at m a k (pd_index (details a) k s)" for K lv
  proof (induction K arbitrary: lv)
    case 0 then show ?case by simp
  next
    case (Suc K)
    show ?case
    proof (cases "k = K")
      case True
      then show ?thesis using Suc.prems assms(2) by (simp add: pd_writes_untouched)
    next
      case False
      then show ?thesis using Suc.prems by (simp add: Suc.IH)
    qed
  qed
  from this[OF assms(1), of "map (\<lambda>i. values_pool a ! (2 + i)) [0..<NUM_PARS m]"] assms(3)
  show ?thesis by (simp add: point_values_def)
qed

lemma point_values_first: "agree_off (pd_slots (details a) (MAX_PD m))
    (map (\<lambda>i. values_pool a ! (2 + i)) [0..<NUM_PARS m]) (point_values m a s)"
  unfolding point_values_def by (rule agree_off_sym[OF pd_writes_off])

subsection \<open>The loop nest, level by level\<close>

lemma write_slot_agree:
  assumes "agree_off (insert p A) lv pv" "p \<notin> A \<Longrightarrow> p < length pv \<Longrightarrow> pv ! p = v"
  shows "agree_off A (lv[p := v]) pv"
  using assms by (cases "p < length lv") (auto simp: agree_off_def nth_list_update)

lemma length_point_values: "length (point_values m a s) = NUM_PARS m"
  by (simp add: point_values_def length_pd_writes)

lemma level_end_0: "level_end a 0 s = s + 1"
  by (simp add: level_end_def block_end_0)

lemma level_end_break:
  assumes "block_end (details a) k s \<le> block_end (details a) (Suc k) s"
    "s < block_end (details a) k s" "pd_stop a \<le> level_end a k s"
  shows "level_end a (Suc k) s = level_end a k s"
  using assms unfolding level_end_def by (simp add: max_def min_def split: if_splits)

lemma level_end_continue:
  assumes "s < block_end (details a) k s" "level_end a k s < pd_stop a"
  shows "level_end a k s = block_end (details a) k s" "block_end (details a) k s < pd_stop a"
  using assms unfolding level_end_def by (simp_all add: max_def min_def split: if_splits)

lemma level_end_last:
  assumes "block_end (details a) k s = block_end (details a) (Suc k) s"
    "s < block_end (details a) k s" "block_end (details a) k s < pd_stop a"
  shows "level_end a (Suc k) s = block_end (details a) k s"
  using assms unfolding level_end_def by (simp add: max_def min_def split: if_splits)

lemma level_end_next:
  assumes "s < s'" "s' < pd_stop a" "s' < B"
  shows "max (s' + 1) (min (pd_stop a) B) = max (s + 1) (min (pd_stop a) B)"
    and "s' \<le> max (s + 1) (min (pd_stop a) B)"
  using assms by (simp_all add: max_def min_def)

lemma idx_reset:
  "(map (\<lambda>j. if j < k then 0 else f j) [0..<n])[k := 0::nat] = map (\<lambda>j. if j < Suc k then 0 else f j) [0..<n]"
  by (cases "k < n") (auto simp: list_eq_iff_nth_eq nth_list_update less_Suc_eq)

lemma idx_advance:
  assumes "\<And>j. j < k \<Longrightarrow> g j = 0" "g k = f k + 1" "\<And>j. k < j \<Longrightarrow> j < n \<Longrightarrow> g j = f j" "k < n"
  shows "(map (\<lambda>j. if j < k then 0 else f j) [0..<n])[k := f k + 1] = map g [0..<n::nat]"
proof (rule nth_equalityI)
  fix i assume "i < length ((map (\<lambda>j. if j < k then 0 else f j) [0..<n])[k := f k + 1])"
  then have i: "i < n" by simp
  consider "i < k" | "i = k" | "k < i" by linarith
  then show "(map (\<lambda>j. if j < k then 0 else f j) [0..<n])[k := f k + 1] ! i = map g [0..<n] ! i"
    using i assms by cases (simp_all add: nth_list_update)
qed simp

lemma level_0_post:
  assumes priv: "private_slots m a M" and pre: "level_pre m a M 0 st"
  shows "level_post m a M 0 st (pd_level m a 0 (cum_weight m a (MAX_PD m - 0) 0 (step st)) st)"
proof -
  let ?s = "step st"
  let ?st' = "point_body m a (point_weight m a ?s) st"
  from pre have ag: "agree_off M (local_values st) (point_values m a ?s)"
    and ix: "idx st = pd_indices m (details a) ?s"
    by (simp_all add: level_pre_def pd_slots_def)
  have fr: "step ?st' = ?s + 1" "idx ?st' = idx st"
    "visited ?st' = visited st @ [(?s, idx st, local_values st)]"
    using point_body_frame[of m a "point_weight m a ?s" st] by simp_all
  have acc: "(result ?st', pd_norm ?st') = point_step m a ?s (result st, pd_norm st)"
    by (rule point_body_point_step[OF priv ag])
  have keep: "agree_off M (local_values ?st') (point_values m a ?s)"
    by (rule agree_off_trans[OF point_body_keeps[OF priv] ag])
  have vis: "visit_ok m a M (?s, idx st, local_values st) ?s"
    using ag ix by (simp add: visit_ok_def)
  show ?thesis
    unfolding level_post_def level_end_0
    using fr acc keep vis ix
    by (simp add: point_weight_def pd_slots_def pd_indices_def)
qed

lemma pd_while_spec:
  fixes m :: "'a::{zero,one,plus,times,ord} model"
  assumes wf: "wf_details m (details a)" and priv: "private_slots m a M" and k: "k < MAX_PD m"
    and inner: "\<And>st. level_pre m a M k st \<Longrightarrow>
                  level_post m a M k st (inner (cum_weight m a (MAX_PD m - k) k (step st)) st)"
  shows "level_pre m a M (Suc k) st \<Longrightarrow>
         n = pd_length (details a) ! k - pd_index (details a) k (step st) \<Longrightarrow>
         st' = pd_while m a k inner (cum_weight m a (MAX_PD m - Suc k) (Suc k) (step st)) n st \<Longrightarrow>
         level_post m a M (Suc k) st (st'\<lparr>idx := (idx st')[k := 0]\<rparr>)"
proof (induction n arbitrary: st st')
  case 0
  from "0.prems"(1) have "step st < num_eval (details a)" by (simp add: level_pre_def)
  from index_less[OF wf this k] "0.prems"(2) show ?case by simp
next
  case (Suc n)
  let ?d = "details a"
  let ?s = "step st"
  let ?i = "pd_index ?d k ?s"
  let ?p = "pd_par ?d ! k"
  let ?A = "M \<union> pd_slots ?d k"
  let ?wa = "cum_weight m a (MAX_PD m - Suc k) (Suc k) ?s"
  from Suc.prems(1) have s: "?s < num_eval ?d" and ix: "idx st = pd_indices m ?d ?s"
    and ag: "agree_off (M \<union> pd_slots ?d (Suc k)) (local_values st) (point_values m a ?s)"
    by (simp_all add: level_pre_def)
  have ik: "idx st ! k = ?i" using k by (simp add: ix pd_indices_def)
  define st1 where "st1 = st\<lparr>local_values := (local_values st)[?p := pd_value_at m a k ?i]\<rparr>"
  define st2 where "st2 = inner (cum_weight m a (MAX_PD m - k) k ?s) st1"
  have w: "pd_weight_at m a k ?i * ?wa = cum_weight m a (MAX_PD m - k) k ?s"
  proof -
    have e: "MAX_PD m - k = Suc (MAX_PD m - Suc k)" using k by simp
    show ?thesis unfolding e by simp
  qed
  \<comment> \<open>the head of the loop body establishes the precondition of the inner levels\<close>
  have ag1: "agree_off ?A (local_values st1) (point_values m a ?s)"
    unfolding st1_def
  proof (simp, rule write_slot_agree)
    show "agree_off (insert ?p ?A) (local_values st) (point_values m a ?s)"
      using ag by (simp add: pd_slots_Suc)
    assume "?p \<notin> ?A" "?p < length (point_values m a ?s)"
    then show "point_values m a ?s ! ?p = pd_value_at m a k ?i"
      using k by (intro point_values_slot) (simp_all add: length_point_values)
  qed
  have pre1: "level_pre m a M k st1"
    using k s ix ag1 by (simp add: level_pre_def st1_def)
  have post2: "level_post m a M k st1 st2"
    unfolding st2_def using inner[OF pre1] by (simp add: st1_def)
  have s1: "step st1 = ?s" "result st1 = result st" "pd_norm st1 = pd_norm st"
    "visited st1 = visited st" by (simp_all add: st1_def)
  from post2 have step2: "step st2 = level_end a k ?s"
    and acc2: "(result st2, pd_norm st2) = fold (point_step m a) [?s..<level_end a k ?s] (result st, pd_norm st)"
    and ag2: "agree_off ?A (local_values st2) (point_values m a ?s)"
    and ix2: "idx st2 = map (\<lambda>j. if j < k then 0 else pd_index ?d j ?s) [0..<MAX_PD m]"
    by (simp_all add: level_post_def s1)
  from post2 obtain vs1 where vis2: "visited st2 = visited st @ vs1"
    and ok1: "list_all2 (visit_ok m a M) vs1 [?s..<level_end a k ?s]"
    by (auto simp: level_post_def s1)
  have ag2': "agree_off (M \<union> pd_slots ?d (Suc k)) (local_values st2) (point_values m a ?s)"
    by (rule agree_off_mono[OF ag2]) (auto simp: pd_slots_Suc)
  note gt = block_end_gt[OF wf s, of k] and mono = block_end_mono[OF wf s k]
  have unfold: "st' = (if pd_stop a \<le> step st2 then st2
        else pd_while m a k inner ?wa n (st2\<lparr>idx := (idx st2)[k := idx st2 ! k + 1]\<rparr>))"
    using Suc.prems(3) by (simp add: Let_def ik w st1_def st2_def)
  show ?case
  proof (cases "pd_stop a \<le> step st2")
    case True
    then have e: "level_end a (Suc k) ?s = level_end a k ?s"
      using level_end_break[OF mono gt] by (simp add: step2)
    from True unfold have "st' = st2" by simp
    then show ?thesis
      unfolding level_post_def e
      using step2 acc2 ag2' vis2 ok1 by (simp add: ix2 idx_reset)
  next
    case False
    then have lt: "level_end a k ?s < pd_stop a" by (simp add: step2)
    note c = level_end_continue[OF gt lt]
    let ?s' = "block_end ?d k ?s"
    define st3 where "st3 = st2\<lparr>idx := (idx st2)[k := idx st2 ! k + 1]\<rparr>"
    have st': "st' = pd_while m a k inner ?wa n st3" using False unfold by (simp add: st3_def)
    have ix2k: "idx st2 ! k = ?i" using k by (simp add: ix2)
    show ?thesis
    proof (cases n)
      case 0
      with Suc.prems(2) have "\<not> ?i + 1 < pd_length ?d ! k" by simp
      from last_block[OF wf s k this] have lb: "?s' = block_end ?d (Suc k) ?s" .
      have e: "level_end a (Suc k) ?s = level_end a k ?s"
        using level_end_last[OF lb gt c(2)] c(1) by simp
      from 0 st' have "st' = st3" by simp
      then show ?thesis
        unfolding level_post_def e
        using step2 acc2 ag2' vis2 ok1 by (simp add: st3_def ix2 idx_reset)
    next
      case (Suc n')
      with Suc.prems(2) have more: "?i + 1 < pd_length ?d ! k" by simp
      note nb = next_block[OF wf s k more]
      have s'lt: "?s' < num_eval ?d"
        using nb(3) block_end_le_num_eval[OF wf s, of "Suc k"] k by simp
      have same: "pd_index ?d j ?s' = pd_index ?d j ?s" if "Suc k \<le> j" "j < MAX_PD m" for j
        by (rule same_block_index[OF wf nb(1) that])
      have step3: "step st3 = ?s'" by (simp add: st3_def step2 c(1))
      have ix3: "idx st3 = pd_indices m ?d ?s'"
      proof -
        have "idx st3 = (idx st2)[k := ?i + 1]" by (simp add: st3_def ix2k)
        also have "\<dots> = (map (\<lambda>j. if j < k then 0 else pd_index ?d j ?s) [0..<MAX_PD m])[k := ?i + 1]"
          by (simp only: ix2)
        also have "\<dots> = map (\<lambda>j. pd_index ?d j ?s') [0..<MAX_PD m]"
        proof (rule idx_advance)
          show "pd_index ?d k ?s' = ?i + 1" by (rule nb(2))
          show "k < MAX_PD m" by (rule k)
          show "pd_index ?d j ?s' = 0" if "j < k" for j using that by (rule nb(4))
          show "pd_index ?d j ?s' = pd_index ?d j ?s" if "k < j" "j < MAX_PD m" for j
            using that by (intro same) simp_all
        qed
        finally show ?thesis by (simp add: pd_indices_def)
      qed
      have pvs: "agree_off (M \<union> pd_slots ?d (Suc k)) (point_values m a ?s) (point_values m a ?s')"
        by (rule agree_off_mono[OF point_values_same_block[OF wf, of "Suc k"]])
           (use k same in auto)
      have ag3: "agree_off (M \<union> pd_slots ?d (Suc k)) (local_values st3) (point_values m a ?s')"
        using agree_off_trans[OF ag2' pvs] by (simp add: st3_def)
      have pre3: "level_pre m a M (Suc k) st3"
        using k s'lt ix3 ag3 by (simp add: level_pre_def step3)
      have n3: "n = pd_length ?d ! k - pd_index ?d k (step st3)"
        using Suc.prems(2) by (simp add: step3 nb(2))
      have wa: "cum_weight m a (MAX_PD m - Suc k) (Suc k) (step st3) = ?wa"
        unfolding step3 using k by (intro cum_weight_same same) simp_all
      have post3: "level_post m a M (Suc k) st3 (st'\<lparr>idx := (idx st')[k := 0]\<rparr>)"
        by (rule Suc.IH[OF pre3 n3]) (simp add: st' wa)
      have f3: "step st3 = ?s'" "result st3 = result st2" "pd_norm st3 = pd_norm st2"
        "visited st3 = visited st2" by (simp_all add: st3_def step2 c(1))
      have be: "block_end ?d (Suc k) ?s' = block_end ?d (Suc k) ?s"
        by (rule block_end_same[OF nb(1)])
      have e: "level_end a (Suc k) ?s' = level_end a (Suc k) ?s"
        and le: "?s' \<le> level_end a (Suc k) ?s"
        unfolding level_end_def be using level_end_next[OF gt c(2) nb(3)] by simp_all
      have upt: "[?s..<level_end a (Suc k) ?s] = [?s..<?s'] @ [?s'..<level_end a (Suc k) ?s]"
        using gt le by (metis less_imp_le_nat upt_add_eq_append le_Suc_ex)
      from post3 have step': "step st' = level_end a (Suc k) ?s"
        and acc': "(result st', pd_norm st') =
            fold (point_step m a) [?s'..<level_end a (Suc k) ?s] (result st2, pd_norm st2)"
        and ag': "agree_off (M \<union> pd_slots ?d (Suc k)) (local_values st') (point_values m a ?s')"
        and ix': "(idx st')[k := 0] = map (\<lambda>j. if j < Suc k then 0 else pd_index ?d j ?s') [0..<MAX_PD m]"
        by (simp_all add: level_post_def f3 e)
      from post3 obtain vs2 where vis': "visited st' = visited st2 @ vs2"
        and ok2: "list_all2 (visit_ok m a M) vs2 [?s'..<level_end a (Suc k) ?s]"
        by (auto simp: level_post_def f3 e)
      have acc: "(result st', pd_norm st') =
            fold (point_step m a) [?s..<level_end a (Suc k) ?s] (result st, pd_norm st)"
        by (subst upt) (simp add: acc' acc2 c(1))
      have agf: "agree_off (M \<union> pd_slots ?d (Suc k)) (local_values st') (point_values m a ?s)"
        by (rule agree_off_trans[OF ag' agree_off_sym[OF pvs]])
      have ixf: "(idx st')[k := 0] = map (\<lambda>j. if j < Suc k then 0 else pd_index ?d j ?s) [0..<MAX_PD m]"
        unfolding ix' by (rule map_cong) (auto simp: same)
      have visf: "visited st' = visited st @ (vs1 @ vs2)" by (simp add: vis' vis2)
      have okf: "list_all2 (visit_ok m a M) (vs1 @ vs2) [?s..<level_end a (Suc k) ?s]"
        by (subst upt) (rule list_all2_appendI[OF ok1[unfolded c(1)] ok2])
      show ?thesis
        unfolding level_post_def
        using step' acc agf ixf visf okf by auto
    qed
  qed
qed

lemma pd_level_spec:
  fixes m :: "'a::{zero,one,plus,times,ord} model"
  assumes wf: "wf_details m (details a)" and priv: "private_slots m a M"
  shows "level_pre m a M k st \<Longrightarrow>
         level_post m a M k st (pd_level m a k (cum_weight m a (MAX_PD m - k) k (step st)) st)"
proof (induction k arbitrary: st)
  case 0
  then show ?case by (rule level_0_post[OF priv])
next
  case (Suc k)
  from Suc.prems have k: "k < MAX_PD m" and ix: "idx st = pd_indices m (details a) (step st)"
    by (simp_all add: level_pre_def)
  have ik: "idx st ! k = pd_index (details a) k (step st)"
    using k by (simp add: ix pd_indices_def)
  show ?case
    using pd_while_spec[where inner="pd_level m a k", OF wf priv k Suc.IH Suc.prems refl refl]
    by (simp add: Let_def ik)
qed

lemma block_end_top:
  assumes "wf_details m d" "s < num_eval d"
  shows "block_end d (MAX_PD m) s = num_eval d"
  using assms by (simp add: block_end_def wf_total[symmetric])

lemma kernel_start_pre:
  assumes "pd_start a < num_eval (details a)"
  shows "level_pre m a M (MAX_PD m)
           \<lparr>local_values = map (\<lambda>i. values_pool a ! (2 + i)) [0..<NUM_PARS m],
            result = res, pd_norm = pdn, step = pd_start a,
            idx = map (\<lambda>d. (pd_start a div pd_stride (details a) ! d) mod pd_length (details a) ! d) [0..<MAX_PD m],
            visited = []\<rparr>"
  using assms agree_off_mono[OF point_values_first[of a m "pd_start a"], of "M \<union> pd_slots (details a) (MAX_PD m)"]
  by (simp add: level_pre_def pd_indices_def pd_index_def)

lemma kernel_sweep:
  fixes m :: "'a::{zero,one,plus,times,ord} model"
  assumes wf: "wf_details m (details a)" and priv: "private_slots m a M"
    and s: "pd_start a < num_eval (details a)"
  shows "kernel_result m a result0 =
           (fst (fold (point_step m a) (slice_points a) (start_result a result0, start_norm a result0)))
             [nq a := snd (fold (point_step m a) (slice_points a) (start_result a result0, start_norm a result0))]"
    and "list_all2 (visit_ok m a M) (visited (kernel m a result0)) (slice_points a)"
    and "step (kernel m a result0) = max (pd_start a + 1) (min (pd_stop a) (num_eval (details a)))"
proof -
  define init where "init = \<lparr>local_values = map (\<lambda>i. values_pool a ! (2 + i)) [0..<NUM_PARS m],
            result = start_result a result0, pd_norm = start_norm a result0, step = pd_start a,
            idx = map (\<lambda>d. (pd_start a div pd_stride (details a) ! d) mod pd_length (details a) ! d) [0..<MAX_PD m],
            visited = []\<rparr>"
  define st where "st = pd_level m a (MAX_PD m) 1 init"
  have f0: "step init = pd_start a" "result init = start_result a result0"
    "pd_norm init = start_norm a result0" "visited init = []" by (simp_all add: init_def)
  have k: "kernel m a result0 = st\<lparr>result := (result st)[nq a := pd_norm st]\<rparr>"
    by (simp add: kernel_def Let_def start_result_def start_norm_def st_def init_def)
  have pre: "level_pre m a M (MAX_PD m) init"
    unfolding init_def by (rule kernel_start_pre[OF s])
  have post: "level_post m a M (MAX_PD m) init st"
    using pd_level_spec[OF wf priv pre] by (simp add: st_def)
  have e: "[pd_start a..<level_end a (MAX_PD m) (pd_start a)] = slice_points a"
    by (simp add: level_end_def slice_points_def block_end_top[OF wf s])
  from post have acc: "(result st, pd_norm st) =
      fold (point_step m a) (slice_points a) (start_result a result0, start_norm a result0)"
    and vis: "list_all2 (visit_ok m a M) (visited st) (slice_points a)"
    and stp: "step st = level_end a (MAX_PD m) (pd_start a)"
    unfolding level_post_def f0 e by auto
  show "kernel_result m a result0 =
           (fst (fold (point_step m a) (slice_points a) (start_result a result0, start_norm a result0)))
             [nq a := snd (fold (point_step m a) (slice_points a) (start_result a result0, start_norm a result0))]"
    unfolding kernel_result_def k acc[symmetric] by simp
  show "list_all2 (visit_ok m a M) (visited (kernel m a result0)) (slice_points a)"
    unfolding k using vis by simp
  show "step (kernel m a result0) = max (pd_start a + 1) (min (pd_stop a) (num_eval (details a)))"
    unfolding k using stp by (simp add: level_end_def block_end_top[OF wf s])
qed

subsection \<open>The q loop in closed form\<close>

lemma fold_q_step_closed:
  "n \<le> length (result st) \<Longrightarrow>
   fold (q_step m a w) [0..<n] st =
     st\<lparr>local_values := q_lv m a n (local_values st),
        result := map (\<lambda>k. result st ! k + w * fst (scattering m (q_vec a) k (q_lv m a k (local_values st)))) [0..<n]
                    @ drop n (result st)\<rparr>"
proof (induction n)
  case 0
  then show ?case by simp
next
  case (Suc n)
  let ?f = "\<lambda>k. result st ! k + w * fst (scattering m (q_vec a) k (q_lv m a k (local_values st)))"
  from Suc.prems have n: "n < length (result st)" by simp
  have d: "drop n (result st) = result st ! n # drop (Suc n) (result st)"
    using n by (simp add: Cons_nth_drop_Suc)
  have u: "(map ?f [0..<n] @ drop n (result st))[n := ?f n] = map ?f [0..<n] @ ?f n # drop (Suc n) (result st)"
    by (simp add: d list_update_append)
  have nth: "(map ?f [0..<n] @ drop n (result st)) ! n = result st ! n"
    using n by (simp add: nth_append)
  show ?case
    using Suc.IH n by (simp add: q_step_def case_prod_beta u nth)
qed

lemma q_loop_closed:
  "nq a \<le> length (result st) \<Longrightarrow>
   q_loop m a w st = st\<lparr>local_values := q_lv m a (nq a) (local_values st),
                         result := q_result m a w (local_values st) (result st)\<rparr>"
  by (simp add: q_loop_def q_result_def fold_q_step_closed)

lemma length_q_result: "nq a \<le> length res \<Longrightarrow> length (q_result m a w lv res) = length res"
  by (simp add: q_result_def)

lemma q_result_nth:
  "k < nq a \<Longrightarrow> q_result m a w lv res ! k = res ! k + w * fst (scattering m (q_vec a) k (q_lv m a k lv))"
  by (simp add: q_result_def nth_append)

lemma q_result_beyond:
  "nq a \<le> k \<Longrightarrow> nq a \<le> length res \<Longrightarrow> q_result m a w lv res ! k = res ! k"
  by (simp add: q_result_def nth_append)

subsection \<open>Non-magnetic dispatches\<close>

lemma pure_private:
  assumes "\<And>qv q_index lv. snd (scattering m qv q_index lv) = lv"
  shows "private_slots m a {}"
  using assms by (auto simp: private_slots_def agree_off_empty split: option.splits)

lemma pure_q_lv:
  assumes "\<And>qv q_index lv. snd (scattering m qv q_index lv) = lv"
  shows "q_lv m a k lv = lv"
  by (induction k) (simp_all add: assms)

subsection \<open>The slice bounds are read by the loop tests only\<close>

lemma cum_weight_slice [simp]:
  "cum_weight m (a\<lparr>pd_start := s, pd_stop := t\<rparr>) n k x = cum_weight m a n k x"
  by (induction n arbitrary: k) (simp_all add: pd_weight_at_def)

lemma pd_writes_slice [simp]:
  "pd_writes m (a\<lparr>pd_start := s, pd_stop := t\<rparr>) k x lv = pd_writes m a k x lv"
  by (induction k arbitrary: lv) (simp_all add: pd_value_at_def)

lemma q_step_slice [simp]: "q_step m (a\<lparr>pd_start := s, pd_stop := t\<rparr>) = q_step m a"
  by (intro ext) (simp add: q_step_def)

lemma q_loop_slice [simp]: "q_loop m (a\<lparr>pd_start := s, pd_stop := t\<rparr>) = q_loop m a"
  by (intro ext) (simp add: q_loop_def)

lemma point_body_slice [simp]: "point_body m (a\<lparr>pd_start := s, pd_stop := t\<rparr>) = point_body m a"
  by (intro ext) (simp add: point_body_def Let_def)

lemma point_step_slice [simp]: "point_step m (a\<lparr>pd_start := s, pd_stop := t\<rparr>) = point_step m a"
  by (intro ext) (simp add: point_step_def point_weight_def point_values_def)

lemma private_slots_slice [simp]:
  "private_slots m (a\<lparr>pd_start := s, pd_stop := t\<rparr>) M = private_slots m a M"
  by (simp add: private_slots_def)

subsection \<open>The body for one point in closed form\<close>

lemma point_step_closed:
  assumes "nq a \<le> length res"
  shows "point_step m a s (res, pdn) =
     (if (case INVALID m of None \<Rightarrow> True | Some invalid \<Rightarrow> \<not> invalid (point_values m a s))
          \<and> point_weight m a s > cutoff a
      then (q_result m a (point_weight m a s) (point_values m a s) res,
            pdn + point_weight m a s * CALL_VOLUME m (point_values m a s))
      else (res, pdn))"
  using assms by (cases "INVALID m") (simp_all add: point_step_def point_body_def Let_def q_loop_closed)

lemma length_point_step:
  "nq a \<le> length (fst acc) \<Longrightarrow> length (fst (point_step m a s acc)) = length (fst acc)"
  using point_step_closed[of a "fst acc" m s "snd acc"] by (simp add: length_q_result)

lemma length_fold_point_step:
  "nq a \<le> length (fst acc) \<Longrightarrow> length (fst (fold (point_step m a) ss acc)) = length (fst acc)"
  by (induction ss arbitrary: acc) (simp_all add: length_point_step)

subsection \<open>Scenario E2\<close>

lemma e2_wf: "wf_details e2_model (details (e2_args n qv c s t))"
  by (simp add: wf_details_def e2_model_def e2_args_def e2_details_def)

lemma e2_private: "private_slots e2_model (e2_args n qv c s t) {}"
  by (rule pure_private) (simp add: e2_model_def)

lemma less_3_cases: "s < (3::nat) \<Longrightarrow> s = 0 \<or> s = 1 \<or> s = 2"
  by auto

lemma e2_point_values: "s < 3 \<Longrightarrow> point_values e2_model (e2_args n qv c s' t) s = [[1, 2, 3] ! s]"
  using less_3_cases[of s]
  by (auto simp: point_values_def e2_model_def e2_args_def e2_details_def pd_value_at_def pd_index_def)

lemma e2_point_weight: "s < 3 \<Longrightarrow> point_weight e2_model (e2_args n qv c s' t) s = [1 / 4, 1 / 2, 1 / 4] ! s"
  using less_3_cases[of s]
  by (auto simp: point_weight_def e2_model_def e2_args_def e2_details_def pd_weight_at_def pd_index_def)

lemma e2_point_step:
  assumes "s < 3" "n \<le> length res" "c < 1 / 4"
  shows "point_step e2_model (e2_args n qv c s' t) s (res, pdn) =
           (map (\<lambda>k. res ! k + [1 / 4, 1 / 2, 1 / 4] ! s * [1, 2, 3] ! s) [0..<n] @ drop n res,
            pdn + [1 / 4, 1 / 2, 1 / 4] ! s)"
proof -
  have n: "nq (e2_args n qv c s' t) \<le> length res" using assms(2) by (simp add: e2_args_def)
  have w: "c < [1 / 4, 1 / 2, 1 / 4] ! s"
    using assms(3) less_3_cases[OF assms(1)] by auto
  have q: "q_lv e2_model (e2_args n qv c s' t) k lv = lv" for k lv
    by (rule pure_q_lv) (simp add: e2_model_def)
  show ?thesis
    unfolding point_step_closed[OF n] e2_point_values[OF assms(1)] e2_point_weight[OF assms(1)]
    using w by (simp add: q_result_def q) (simp add: e2_model_def e2_args_def)
qed

subsection \<open>Scenario E2 end to end, and the empty slice\<close>

lemma zero_fill:
  "n \<le> length r \<Longrightarrow> fold (\<lambda>q_index r. r[q_index := 0]) [0..<n] r = replicate n 0 @ drop n r"
proof (induction n)
  case 0 then show ?case by simp
next
  case (Suc n)
  then have n: "n < length r" by simp
  have "(replicate n 0 @ drop n r)[n := 0] = replicate n 0 @ (drop n r)[0 := 0]"
    by (simp add: list_update_append)
  also have "\<dots> = replicate (Suc n) 0 @ drop (Suc n) r"
    using n by (simp add: Cons_nth_drop_Suc[symmetric] replicate_append_same)
  finally show ?case using Suc.IH n by simp
qed

lemma map_add_replicate:
  "map (\<lambda>k. (replicate n v @ xs) ! k + w) [0..<n] = replicate n (v + w)"
  by (simp add: list_eq_iff_nth_eq nth_append)

lemma e2_slice_full: "slice_points (e2_args n qv c 0 3) = [0, 1, 2]"
  by (simp add: slice_points_def e2_args_def e2_details_def upt_rec)

text \<open>
  Claim C4 (scenario E2).  With \<open>Iq(q, p) = p\<close>, values \<open>1, 2, 3\<close>, weights
  \<open>0.25, 0.5, 0.25\<close>, \<open>form_volume = 1\<close>, no invalid predicate, a cutoff below \<open>0.25\<close> and the
  full slice \<open>(0, 3)\<close>, the kernel leaves \<open>2\<close> in every \<open>result[k]\<close>, \<open>k < nq\<close>, and \<open>1\<close> in
  \<open>result[nq]\<close>, for every \<open>nq\<close>, every \<open>q\<close> and every previous content of the buffer of
  \<open>nq + 1\<close> entries.
\<close>

theorem e2_end_to_end:
  assumes "c < 1 / 4" "length result0 = n + 1"
  shows "kernel_result e2_model (e2_args n qv c 0 3) result0 = replicate n 2 @ [1]"
proof -
  let ?a = "e2_args n qv c 0 3"
  have s: "pd_start ?a < num_eval (details ?a)" by (simp add: e2_args_def e2_details_def)
  have nqa: "nq ?a = n" by (simp add: e2_args_def)
  have sr: "start_result ?a result0 = replicate n 0 @ drop n result0"
    using assms(2) by (simp add: start_result_def zero_fill e2_args_def)
  have sn: "start_norm ?a result0 = 0" by (simp add: start_norm_def e2_args_def)
  obtain x where d: "drop n result0 = [x]"
    using assms(2) by (cases "drop n result0") (auto simp: drop_eq_Nil dest: arg_cong[where f=length])
  have p0: "point_step e2_model ?a 0 (replicate n 0 @ [x], 0) = (replicate n (1 / 4) @ [x], 1 / 4)"
    using assms(1) by (subst e2_point_step) (simp_all add: map_add_replicate)
  have p1: "point_step e2_model ?a 1 (replicate n (1 / 4) @ [x], 1 / 4) = (replicate n (5 / 4) @ [x], 3 / 4)"
    using assms(1) by (subst e2_point_step) (simp_all add: map_add_replicate)
  have p2: "point_step e2_model ?a 2 (replicate n (5 / 4) @ [x], 3 / 4) = (replicate n 2 @ [x], 1)"
    using assms(1) by (subst e2_point_step) (simp_all add: map_add_replicate)
  have f: "fold (point_step e2_model ?a) [0, 1, 2] (replicate n 0 @ [x], 0) = (replicate n 2 @ [x], 1)"
    by (simp only: fold.simps o_apply id_apply p0 p1 p2)
  show ?thesis
    unfolding kernel_sweep(1)[OF e2_wf e2_private s] e2_slice_full sr sn d f nqa
    by (simp add: list_update_append)
qed

theorem e2_end_to_end_witness:
  "(1 / 10 :: real) < 1 / 4 \<and> length [9, 9, 9 :: real] = 2 + 1 \<and>
   kernel_result e2_model (e2_args 2 [1, 2] (1 / 10) 0 3) [9, 9, 9] = [2, 2, 1]"
  using e2_end_to_end[of "1 / 10" "[9, 9, 9]" 2 "[1, 2]"]
  by (simp add: numeral_2_eq_2)

lemma slice_points_empty:
  "pd_stop a = pd_start a \<Longrightarrow> slice_points a = [pd_start a]"
  by (simp add: slice_points_def)

text \<open>
  Claim C10.  A call with the empty slice \<open>pd_stop = pd_start\<close>, \<open>pd_start < num_eval\<close>, runs
  the loop body once, for the cube point with index \<open>pd_start\<close>: the trace has that one
  entry, \<open>step\<close> ends at \<open>pd_start + 1\<close>, and the buffer handed back holds the
  contribution of that point, as for the slice \<open>(pd_start, pd_start + 1)\<close>.  (It holds for
  every \<open>MAX_PD\<close>, so for \<open>MAX_PD > 0\<close>.)
\<close>

theorem empty_slice_runs_body_once:
  fixes m :: "'a::{zero,one,plus,times,ord} model"
  assumes "wf_details m (details a)" "private_slots m a M"
    "pd_start a < num_eval (details a)" "pd_stop a = pd_start a"
  shows "map fst (visited (kernel m a result0)) = [pd_start a] \<and>
         step (kernel m a result0) = pd_start a + 1 \<and>
         kernel_result m a result0 =
           (fst (point_step m a (pd_start a) (start_result a result0, start_norm a result0)))
             [nq a := snd (point_step m a (pd_start a) (start_result a result0, start_norm a result0))] \<and>
         kernel_result m a result0 = kernel_result m (a\<lparr>pd_stop := pd_start a + 1\<rparr>) result0"
proof -
  let ?a' = "a\<lparr>pd_stop := pd_start a + 1\<rparr>"
  have sp: "slice_points a = [pd_start a]" by (rule slice_points_empty[OF assms(4)])
  have sp': "slice_points ?a' = [pd_start a]"
    using assms(3) by (simp add: slice_points_def)
  have a': "?a' = a\<lparr>pd_start := pd_start a, pd_stop := pd_start a + 1\<rparr>" by simp
  have ps: "point_step m ?a' = point_step m a" unfolding a' by (rule point_step_slice)
  have pr: "private_slots m ?a' M" using assms(2) by (simp add: private_slots_def)
  from kernel_sweep(2)[OF assms(1-3), of result0]
  have "map fst (visited (kernel m a result0)) = [pd_start a]"
    unfolding sp by (auto simp: list_all2_Cons2 visit_ok_def)
  moreover have "step (kernel m a result0) = pd_start a + 1"
    using kernel_sweep(3)[OF assms(1-3), of result0] assms(3,4) by simp
  moreover have k: "kernel_result m a result0 =
           (fst (point_step m a (pd_start a) (start_result a result0, start_norm a result0)))
             [nq a := snd (point_step m a (pd_start a) (start_result a result0, start_norm a result0))]"
    unfolding kernel_sweep(1)[OF assms(1-3)] sp by simp
  moreover have "kernel_result m ?a' result0 =
           (fst (point_step m a (pd_start a) (start_result a result0, start_norm a result0)))
             [nq a := snd (point_step m a (pd_start a) (start_result a result0, start_norm a result0))]"
  proof -
    have wf': "wf_details m (details ?a')" and s': "pd_start ?a' < num_eval (details ?a')"
      using assms(1,3) by simp_all
    show ?thesis
      unfolding kernel_sweep(1)[OF wf' pr s'] sp' ps
      by (simp add: start_result_def start_norm_def)
  qed
  ultimately show ?thesis by simp
qed

theorem empty_slice_runs_body_once_witness:
  "wf_details e2_model (details (e2_args 2 [1, 2] (1 / 10) 1 1)) \<and>
   pd_start (e2_args 2 [1, 2] (1 / 10) 1 1) < num_eval (details (e2_args 2 [1, 2] (1 / 10) 1 1)) \<and>
   pd_stop (e2_args 2 [1, 2] (1 / 10) 1 1) = pd_start (e2_args 2 [1, 2] (1 / 10) 1 1) \<and>
   map fst (visited (kernel e2_model (e2_args 2 [1, 2] (1 / 10) 1 1) [9, 9, 9])) = [1] \<and>
   kernel_result e2_model (e2_args 2 [1, 2] (1 / 10) 1 1) [9, 9, 9] = [10, 10, 19 / 2]"
proof -
  let ?a = "e2_args 2 [1, 2] (1 / 10) 1 1"
  have h: "pd_start ?a < num_eval (details ?a)" "pd_stop ?a = pd_start ?a"
    by (simp_all add: e2_args_def e2_details_def)
  have v: "start_result ?a [9, 9, 9] = [9, 9, 9]" "start_norm ?a [9, 9, 9] = 9" "nq ?a = 2" "pd_start ?a = 1"
    by (simp_all add: start_result_def start_norm_def e2_args_def)
  have p: "point_step e2_model ?a 1 ([9, 9, 9], 9) = ([10, 10, 9], 19 / 2)"
    by (subst e2_point_step) (simp_all add: upt_rec)
  from empty_slice_runs_body_once[OF e2_wf e2_private h, of "[9, 9, 9]"]
  show ?thesis using h e2_wf unfolding v p by simp
qed

subsection \<open>Resuming a sweep\<close>

lemma q_result_slot_nq:
  assumes "nq a < length res"
  shows "q_result m a w lv (res[nq a := x]) = (q_result m a w lv res)[nq a := x]"
proof -
  have "map (\<lambda>k. res[nq a := x] ! k + w * fst (scattering m (q_vec a) k (q_lv m a k lv))) [0..<nq a]
      = map (\<lambda>k. res ! k + w * fst (scattering m (q_vec a) k (q_lv m a k lv))) [0..<nq a]"
    by (rule map_cong) simp_all
  moreover have "drop (nq a) (res[nq a := x]) = (drop (nq a) res)[0 := x]"
    by (simp add: drop_update_swap)
  ultimately show ?thesis by (simp add: q_result_def list_update_append)
qed

lemma point_step_slot_nq:
  assumes "nq a < length res"
  shows "point_step m a s (res[nq a := x], pdn) =
           ((fst (point_step m a s (res, pdn)))[nq a := x], snd (point_step m a s (res, pdn)))"
  using assms by (simp add: point_step_closed q_result_slot_nq)

lemma fold_point_step_slot_nq:
  "nq a < length res \<Longrightarrow>
   fold (point_step m a) ss (res[nq a := x], pdn) =
     ((fst (fold (point_step m a) ss (res, pdn)))[nq a := x], snd (fold (point_step m a) ss (res, pdn)))"
proof (induction ss arbitrary: res pdn)
  case Nil then show ?case by simp
next
  case (Cons s ss)
  obtain res' pdn' where p: "point_step m a s (res, pdn) = (res', pdn')" by (cases "point_step m a s (res, pdn)")
  have l: "nq a < length res'"
    using length_point_step[of a "(res, pdn)" m s] Cons.prems by (simp add: p)
  show ?case using Cons.IH[OF l] Cons.prems by (simp add: point_step_slot_nq p)
qed

lemma kernel_result_resumed:
  fixes m :: "'a::{zero,one,plus,times,ord} model"
  assumes wf: "wf_details m (details a)" and priv: "private_slots m a M"
    and s: "0 < s" "s < t" "t \<le> num_eval (details a)" and l: "nq a < length (fst acc)"
  shows "kernel_result m (a\<lparr>pd_start := s, pd_stop := t\<rparr>) ((fst acc)[nq a := snd acc]) =
           (fst (fold (point_step m a) [s..<t] acc))[nq a := snd (fold (point_step m a) [s..<t] acc)]"
proof -
  let ?a = "a\<lparr>pd_start := s, pd_stop := t\<rparr>"
  have wf': "wf_details m (details ?a)" and pr': "private_slots m ?a M"
    and s': "pd_start ?a < num_eval (details ?a)"
    using wf priv s by simp_all
  have sp: "slice_points ?a = [s..<t]" using s by (simp add: slice_points_def max_def min_def)
  have st: "start_result ?a ((fst acc)[nq a := snd acc]) = (fst acc)[nq a := snd acc]"
    "start_norm ?a ((fst acc)[nq a := snd acc]) = snd acc"
    using s(1) l by (simp_all add: start_result_def start_norm_def)
  show ?thesis
    unfolding kernel_sweep(1)[OF wf' pr' s'] sp st point_step_slice
    using fold_point_step_slot_nq[OF l, of m "[s..<t]" "snd acc" "snd acc"]
    by simp
qed

lemma kernel_slices_resumed:
  fixes m :: "'a::{zero,one,plus,times,ord} model"
  assumes wf: "wf_details m (details a)" and priv: "private_slots m a M"
  shows "sorted_wrt (<) (s # bounds) \<Longrightarrow> 0 < s \<Longrightarrow> last (s # bounds) \<le> num_eval (details a) \<Longrightarrow>
         nq a < length (fst acc) \<Longrightarrow>
         kernel_slices m a (s # bounds) ((fst acc)[nq a := snd acc]) =
           (fst (fold (point_step m a) [s..<last (s # bounds)] acc))
             [nq a := snd (fold (point_step m a) [s..<last (s # bounds)] acc)]"
proof (induction bounds arbitrary: s acc)
  case Nil
  then show ?case by simp
next
  case (Cons t bounds)
  let ?acc = "fold (point_step m a) [s..<t] acc"
  from Cons.prems(1) have st: "s < t" and so: "sorted_wrt (<) (t # bounds)" by simp_all
  have tl: "t \<le> last (t # bounds)"
    using so by (cases bounds) (auto simp: less_imp_le)
  have ll: "last (s # t # bounds) = last (t # bounds)" by simp
  have tn: "t \<le> num_eval (details a)" using Cons.prems(3) tl unfolding ll by (rule_tac order_trans)
  have l: "nq a < length (fst ?acc)"
    using Cons.prems(4) by (simp add: length_fold_point_step)
  have t0: "0 < t" using st by simp
  have la: "last (t # bounds) \<le> num_eval (details a)" using Cons.prems(3) unfolding ll .
  have upt: "[s..<last (t # bounds)] = [s..<t] @ [t..<last (t # bounds)]"
    using st tl by (metis less_imp_le_nat upt_add_eq_append le_Suc_ex)
  have "kernel_slices m a (s # t # bounds) ((fst acc)[nq a := snd acc]) =
        kernel_slices m a (t # bounds) ((fst ?acc)[nq a := snd ?acc])"
    by (simp add: kernel_result_resumed[OF wf priv Cons.prems(2) st tn Cons.prems(4)])
  also have "\<dots> = (fst (fold (point_step m a) [t..<last (t # bounds)] ?acc))
             [nq a := snd (fold (point_step m a) [t..<last (t # bounds)] ?acc)]"
    by (rule Cons.IH[OF so t0 la l])
  finally show ?case unfolding ll upt by (simp del: last.simps)
qed

text \<open>
  Claim C1 (resumability).  For every partition \<open>0 = s\<^sub>0 < s\<^sub>1 < \<dots> < s\<^sub>m = num_eval\<close>, the
  calls for the slices \<open>(s\<^sub>j, s\<^sub>j\<^sub>+\<^sub>1)\<close> in increasing order, each on the buffer of the one
  before, hand back the same buffer as the single call for \<open>(0, num_eval)\<close>, entry by
  entry.  The arithmetic is uninterpreted, so the equality does not depend on any law
  of \<open>+\<close> or \<open>*\<close>.  The buffer has more than \<open>nq\<close> entries, the descriptor is well formed,
  and the slots the scattering block writes are private to it (none, for the
  non-magnetic dispatches).
\<close>

theorem resumability:
  fixes m :: "'a::{zero,one,plus,times,ord} model"
  assumes "wf_details m (details a)" "private_slots m a M"
    and "sorted_wrt (<) bounds" "2 \<le> length bounds" "hd bounds = 0"
      "last bounds = num_eval (details a)"
    and "nq a < length result0"
  shows "kernel_slices m a bounds result0 =
           kernel_result m (a\<lparr>pd_start := 0, pd_stop := num_eval (details a)\<rparr>) result0"
proof -
  let ?N = "num_eval (details a)"
  from assms(4,5) obtain t rest where b: "bounds = 0 # t # rest"
    by (cases bounds; cases "tl bounds") auto
  from assms(3) b have t0: "0 < t" and so: "sorted_wrt (<) (t # rest)" by simp_all
  from assms(6) b have la: "last (t # rest) = ?N" by simp
  have tl: "t \<le> last (t # rest)" using so by (cases rest) (auto simp: less_imp_le)
  then have tn: "t \<le> ?N" unfolding la .
  let ?a0 = "a\<lparr>pd_start := 0, pd_stop := t\<rparr>"
  let ?af = "a\<lparr>pd_start := 0, pd_stop := ?N\<rparr>"
  let ?start = "(start_result ?a0 result0, start_norm ?a0 result0)"
  let ?acc = "fold (point_step m a) [0..<t] ?start"
  have stf: "(start_result ?af result0, start_norm ?af result0) = ?start"
    by (simp add: start_result_def start_norm_def)
  have ls: "nq a < length (fst ?start)"
    using assms(7) by (simp add: start_result_def zero_fill)
  have l: "nq a < length (fst ?acc)" using ls by (simp add: length_fold_point_step)
  have wf0: "wf_details m (details ?a0)" and pr0: "private_slots m ?a0 M"
    and s0: "pd_start ?a0 < num_eval (details ?a0)"
    using assms(1,2) t0 tn by simp_all
  have wfN: "wf_details m (details ?af)" and prN: "private_slots m ?af M"
    and sN: "pd_start ?af < num_eval (details ?af)"
    using assms(1,2) t0 tn by simp_all
  have sp0: "slice_points ?a0 = [0..<t]" using t0 tn by (simp add: slice_points_def max_def min_def)
  have spf: "slice_points ?af = [0..<?N]" using t0 tn by (simp add: slice_points_def max_def)
  have upt: "[0..<?N] = [0..<t] @ [t..<?N]"
    using tn by (metis le0 upt_add_eq_append le_Suc_ex)
  have first: "kernel_result m ?a0 result0 = (fst ?acc)[nq a := snd ?acc]"
    unfolding kernel_sweep(1)[OF wf0 pr0 s0] sp0 point_step_slice by simp
  have "kernel_slices m a bounds result0 = kernel_slices m a (t # rest) ((fst ?acc)[nq a := snd ?acc])"
    by (simp add: b first)
  also have "\<dots> = (fst (fold (point_step m a) [t..<?N] ?acc))[nq a := snd (fold (point_step m a) [t..<?N] ?acc)]"
    using kernel_slices_resumed[OF assms(1,2) so t0 _ l] unfolding la by simp
  also have "\<dots> = kernel_result m ?af result0"
    unfolding kernel_sweep(1)[OF wfN prN sN] spf point_step_slice stf upt by simp
  finally show ?thesis .
qed

theorem resumability_witness:
  "wf_details e2_model (details (e2_args 2 [1, 2] (1 / 10) 0 0)) \<and>
   sorted_wrt (<) [0, 1, 3 :: nat] \<and> 2 \<le> length [0, 1, 3 :: nat] \<and> hd [0, 1, 3 :: nat] = 0 \<and>
   last [0, 1, 3] = num_eval (details (e2_args 2 [1, 2] (1 / 10) 0 0)) \<and>
   nq (e2_args 2 [1, 2] (1 / 10) 0 0) < length [9, 9, 9 :: real] \<and>
   kernel_slices e2_model (e2_args 2 [1, 2] (1 / 10) 0 0) [0, 1, 3] [9, 9, 9] =
     kernel_result e2_model (e2_args 2 [1, 2] (1 / 10) 0 0
        \<lparr>pd_start := 0, pd_stop := num_eval (details (e2_args 2 [1, 2] (1 / 10) 0 0))\<rparr>) [9, 9, 9]"
proof -
  let ?a = "e2_args 2 [1, 2] (1 / 10) 0 0"
  have h: "sorted_wrt (<) [0, 1, 3 :: nat]" "2 \<le> length [0, 1, 3 :: nat]" "hd [0, 1, 3 :: nat] = 0"
    "last [0, 1, 3] = num_eval (details ?a)" "nq ?a < length [9, 9, 9 :: real]"
    by (simp_all add: e2_args_def e2_details_def)
  from resumability[OF e2_wf e2_private h]
  show ?thesis using h e2_wf by simp
qed

subsection \<open>Enumeration of the cube\<close>

lemma mixed_radix_mod:
  assumes wf: "wf_details m d"
  shows "k \<le> MAX_PD m \<Longrightarrow> (\<Sum>j<k. pd_index d j s * pd_stride d ! j) = s mod stride_of d k"
proof (induction k)
  case 0
  then show ?case by (simp add: stride_of_def)
next
  case (Suc k)
  then have k: "k < MAX_PD m" by simp
  have "(\<Sum>j<Suc k. pd_index d j s * pd_stride d ! j)
          = s mod stride_of d k + (s div stride_of d k) mod pd_length d ! k * stride_of d k"
    using Suc by (simp add: wf_index[OF wf k] wf_stride[OF wf k])
  also have "\<dots> = s mod (stride_of d k * pd_length d ! k)"
    by (simp add: mod_mult2_eq mult.commute)
  finally show ?case by (simp add: stride_Suc[OF wf k])
qed

lemma mixed_radix_sum:
  assumes "wf_details m d" "s < num_eval d"
  shows "(\<Sum>j<MAX_PD m. pd_indices m d s ! j * pd_stride d ! j) = s"
proof -
  have "(\<Sum>j<MAX_PD m. pd_indices m d s ! j * pd_stride d ! j)
          = (\<Sum>j<MAX_PD m. pd_index d j s * pd_stride d ! j)"
    by (rule sum.cong) (simp_all add: pd_indices_def)
  also have "\<dots> = s mod stride_of d (MAX_PD m)" by (rule mixed_radix_mod[OF assms(1)]) simp
  finally show ?thesis using assms(2) by (simp add: wf_total[OF assms(1), symmetric])
qed

lemma list_all2_visit_steps:
  "list_all2 (visit_ok m a M) vs ts \<Longrightarrow> map fst vs = ts"
  by (induction rule: list_all2_induct) (simp_all add: visit_ok_def)

lemma list_all2_visit_mem:
  "list_all2 (visit_ok m a M) vs ts \<Longrightarrow> v \<in> set vs \<Longrightarrow> fst v \<in> set ts \<and> visit_ok m a M v (fst v)"
  by (induction rule: list_all2_induct) (auto simp: visit_ok_def)

lemma slice_points_proper:
  "pd_start a < pd_stop a \<Longrightarrow> pd_stop a \<le> num_eval (details a) \<Longrightarrow>
   slice_points a = [pd_start a..<pd_stop a]"
  by (simp add: slice_points_def max_def min_def)

text \<open>
  Claim C2, amended.  For a well-formed descriptor and a slice
  \<open>0 \<le> pd_start < pd_stop \<le> num_eval\<close>, the loop body is run for exactly the steps
  \<open>pd_start, \<dots>, pd_stop - 1\<close>, in this order; at step \<open>s\<close> the indices are
  \<open>i_d = (s / pd_stride[d]) mod pd_length[d]\<close> (so the first ones are those of \<open>pd_start\<close>),
  and \<open>s\<close> is \<open>\<Sum> i_d * pd_stride[d]\<close>.  Slot \<open>pd_par[d]\<close> of the parameter block then holds
  \<open>pd_value[d][i_d]\<close> for every dimension \<open>d\<close> whose slot is inside the block, is not
  also the slot of a lower-numbered (inner) dimension, and is not a slot that the
  scattering block rewrites.
\<close>

theorem hypercube_enumeration:
  fixes m :: "'a::{zero,one,plus,times,ord} model"
  assumes "wf_details m (details a)" "private_slots m a M"
    and "pd_start a < pd_stop a" "pd_stop a \<le> num_eval (details a)"
  shows "map fst (visited (kernel m a result0)) = [pd_start a..<pd_stop a] \<and>
         (\<forall>v \<in> set (visited (kernel m a result0)).
            fst (snd v) = pd_indices m (details a) (fst v) \<and>
            (\<Sum>d<MAX_PD m. fst (snd v) ! d * pd_stride (details a) ! d) = fst v \<and>
            (\<forall>d<MAX_PD m. pd_par (details a) ! d \<notin> M \<union> pd_slots (details a) d \<longrightarrow>
                 pd_par (details a) ! d < NUM_PARS m \<longrightarrow>
                 snd (snd v) ! (pd_par (details a) ! d) = pd_value_at m a d (fst (snd v) ! d)))"
proof -
  have s: "pd_start a < num_eval (details a)" using assms(3,4) by simp
  note vis = kernel_sweep(2)[OF assms(1,2) s, of result0, unfolded slice_points_proper[OF assms(3,4)]]
  have 1: "map fst (visited (kernel m a result0)) = [pd_start a..<pd_stop a]"
    by (rule list_all2_visit_steps[OF vis])
  have 2: "fst (snd v) = pd_indices m (details a) (fst v) \<and>
            (\<Sum>d<MAX_PD m. fst (snd v) ! d * pd_stride (details a) ! d) = fst v \<and>
            (\<forall>d<MAX_PD m. pd_par (details a) ! d \<notin> M \<union> pd_slots (details a) d \<longrightarrow>
                 pd_par (details a) ! d < NUM_PARS m \<longrightarrow>
                 snd (snd v) ! (pd_par (details a) ! d) = pd_value_at m a d (fst (snd v) ! d))"
    if v: "v \<in> set (visited (kernel m a result0))" for v
  proof -
    from list_all2_visit_mem[OF vis v]
    have t: "fst v < num_eval (details a)" and ix: "fst (snd v) = pd_indices m (details a) (fst v)"
      and ag: "agree_off M (snd (snd v)) (point_values m a (fst v))"
      using assms(4) by (auto simp: visit_ok_def)
    have sum: "(\<Sum>d<MAX_PD m. fst (snd v) ! d * pd_stride (details a) ! d) = fst v"
      unfolding ix by (rule mixed_radix_sum[OF assms(1) t])
    have slot: "snd (snd v) ! (pd_par (details a) ! d) = pd_value_at m a d (fst (snd v) ! d)"
      if d: "d < MAX_PD m" and p: "pd_par (details a) ! d \<notin> M \<union> pd_slots (details a) d"
        "pd_par (details a) ! d < NUM_PARS m" for d
    proof -
      have "snd (snd v) ! (pd_par (details a) ! d) = point_values m a (fst v) ! (pd_par (details a) ! d)"
        using ag p by (simp add: agree_off_def length_point_values)
      also have "\<dots> = pd_value_at m a d (pd_index (details a) d (fst v))"
        using p by (intro point_values_slot[OF d]) simp_all
      finally show ?thesis using d by (simp add: ix pd_indices_def)
    qed
    show ?thesis by (intro conjI allI impI ix sum slot)
  qed
  show ?thesis by (intro conjI ballI 1 2)
qed

theorem hypercube_enumeration_witness:
  "wf_details e2_model (details (e2_args 2 [1, 2] (1 / 10) 0 3)) \<and>
   pd_start (e2_args 2 [1, 2] (1 / 10) 0 3) < pd_stop (e2_args 2 [1, 2] (1 / 10) 0 3) \<and>
   pd_stop (e2_args 2 [1, 2] (1 / 10) 0 3) \<le> num_eval (details (e2_args 2 [1, 2] (1 / 10) 0 3)) \<and>
   map fst (visited (kernel e2_model (e2_args 2 [1, 2] (1 / 10) 0 3) [9, 9, 9])) = [0..<3] \<and>
   list_all (\<lambda>v. fst (snd v) = [fst v mod 3] \<and>
       snd (snd v) ! 0 = pd_value_at e2_model (e2_args 2 [1, 2] (1 / 10) 0 3) 0 (fst (snd v) ! 0))
     (visited (kernel e2_model (e2_args 2 [1, 2] (1 / 10) 0 3) [9, 9, 9]))"
proof -
  let ?a = "e2_args 2 [1, 2] (1 / 10) 0 3"
  have h: "pd_start ?a < pd_stop ?a" "pd_stop ?a \<le> num_eval (details ?a)"
    by (simp_all add: e2_args_def e2_details_def)
  have d: "MAX_PD e2_model = 1" "NUM_PARS e2_model = 1" "pd_par (details ?a) ! 0 = 0"
    "pd_slots (details ?a) 0 = {}" "pd_stop ?a = 3" "pd_start ?a = 0"
    "pd_indices e2_model (details ?a) s = [s mod 3]" for s
    by (simp_all add: e2_model_def e2_args_def e2_details_def pd_slots_def pd_indices_def pd_index_def)
  let ?vs = "visited (kernel e2_model ?a [9, 9, 9])"
  note t = hypercube_enumeration[OF e2_wf e2_private h, of "[9, 9, 9]"]
  from t have A: "map fst ?vs = [0..<3]" unfolding d by (rule conjunct1)
  have B: "fst (snd v) = [fst v mod 3] \<and>
       snd (snd v) ! 0 = pd_value_at e2_model ?a 0 (fst (snd v) ! 0)" if "v \<in> set ?vs" for v
  proof -
    note tv = bspec[OF conjunct2[OF t] that]
    have "fst (snd v) = pd_indices e2_model (details ?a) (fst v)"
      by (rule conjunct1[OF tv])
    moreover have "\<forall>d<MAX_PD e2_model. pd_par (details ?a) ! d \<notin> {} \<union> pd_slots (details ?a) d \<longrightarrow>
                 pd_par (details ?a) ! d < NUM_PARS e2_model \<longrightarrow>
                 snd (snd v) ! (pd_par (details ?a) ! d) = pd_value_at e2_model ?a d (fst (snd v) ! d)"
      by (rule conjunct2[OF conjunct2[OF tv]])
    ultimately show ?thesis using d(3,4) unfolding d(1,2,7) by simp
  qed
  then have C: "list_all (\<lambda>v. fst (snd v) = [fst v mod 3] \<and>
       snd (snd v) ! 0 = pd_value_at e2_model ?a 0 (fst (snd v) ! 0)) ?vs"
    unfolding list_all_iff by (rule ballI)
  show ?thesis by (intro conjI e2_wf h A C)
qed

text \<open>
  Claim C2 as stated fails where two levels name one slot: the assignment of the inner
  level is the later one.  In the call below the idle level 1 names slot 0, like level
  0; at step 1 the slot holds \<open>pd_value[0][1] = 2\<close>, not \<open>pd_value[1][0] = 1\<close>.
\<close>

theorem hypercube_enumeration_counterexample:
  "wf_details c2_model (details c2_args) \<and>
   pd_start c2_args < pd_stop c2_args \<and> pd_stop c2_args \<le> num_eval (details c2_args) \<and>
   visited (kernel c2_model c2_args [0, 0]) = [(0, [0, 0], [1]), (1, [1, 0], [2])] \<and>
   \<not> list_all (slots_hold c2_model c2_args) (visited (kernel c2_model c2_args [0, 0]))"
proof -
  have v: "visited (kernel c2_model c2_args [0, 0]) = [(0, [0, 0], [1]), (1, [1, 0], [2])]"
    by (simp add: kernel_def c2_model_def c2_args_def Let_def pd_value_at_def pd_weight_at_def
        point_body_def q_loop_def q_step_def numeral_2_eq_2)
  have w: "wf_details c2_model (details c2_args)"
    by (simp add: wf_details_def c2_model_def c2_args_def numeral_2_eq_2)
  have n: "\<not> list_all (slots_hold c2_model c2_args) [(0, [0, 0], [1]), (1, [1, 0], [2])]"
    by code_simp
  have h: "pd_start c2_args < pd_stop c2_args" "pd_stop c2_args \<le> num_eval (details c2_args)"
    by (simp_all add: c2_args_def)
  show ?thesis unfolding v by (intro conjI w h n refl)
qed

subsection \<open>The skip policy\<close>

lemma cum_weight_foldr:
  "cum_weight m a n k s =
     foldr (\<lambda>d w. pd_weight_at m a d (pd_index (details a) d s) * w) [k..<k + n] 1"
proof (induction n arbitrary: k)
  case 0 then show ?case by simp
next
  case (Suc n)
  have "[k..<k + Suc n] = k # [Suc k..<Suc k + n]" by (simp add: upt_conv_Cons)
  then show ?case by (simp add: Suc.IH)
qed

lemma point_step_skip_policy:
  fixes m :: "'a::{zero,one,plus,times,linorder} model"
  assumes "nq a \<le> length (fst acc)"
  shows "point_step m a s acc = skip_policy_step m a s acc"
proof -
  have w: "point_weight m a s =
      foldr (\<lambda>d w. pd_weight_at m a d (pd_index (details a) d s) * w) [0..<MAX_PD m] 1"
    using cum_weight_foldr[of m a "MAX_PD m" 0 s] by (simp add: point_weight_def)
  show ?thesis
    using point_step_closed[OF assms, of m s "snd acc"]
    by (cases "INVALID m")
       (auto simp: skip_policy_step_def Let_def w[symmetric] q_result_def not_le)
qed

lemma fold_point_step_skip_policy:
  fixes m :: "'a::{zero,one,plus,times,linorder} model"
  shows "nq a \<le> length (fst acc) \<Longrightarrow>
         fold (point_step m a) ss acc = fold (skip_policy_step m a) ss acc"
proof (induction ss arbitrary: acc)
  case Nil then show ?case by simp
next
  case (Cons s ss)
  have "nq a \<le> length (fst (point_step m a s acc))"
    using Cons.prems by (simp add: length_point_step)
  from Cons.IH[OF this] show ?case
    using Cons.prems by (simp add: point_step_skip_policy)
qed

lemma length_start_result: "length (start_result a r) = length r"
proof -
  have "length (fold (\<lambda>q_index r. r[q_index := 0]) qs r) = length r" for qs :: "nat list" and r :: "'a list"
    by (induction qs arbitrary: r) simp_all
  then show ?thesis by (simp add: start_result_def)
qed

lemma point_body_skip_policy:
  fixes m :: "'a::{zero,one,plus,times,linorder} model"
  assumes "nq a \<le> length (result st)"
  shows "(if (case INVALID m of None \<Rightarrow> False | Some f \<Rightarrow> f (local_values st)) \<or> w \<le> cutoff a
          then result (point_body m a w st) = result st \<and> pd_norm (point_body m a w st) = pd_norm st
          else pd_norm (point_body m a w st) = pd_norm st + w * CALL_VOLUME m (local_values st) \<and>
               result (point_body m a w st) = q_result m a w (local_values st) (result st))"
  using assms by (cases "INVALID m") (auto simp: point_body_def Let_def q_loop_closed not_le)

text \<open>
  Claim C3 (skip policy).  The loop body, run with the parameter block \<open>p\<close> and the
  weight \<open>w\<close>, leaves \<open>result\<close> and \<open>pd_norm\<close> as they are when \<open>invalid(p)\<close> holds or
  \<open>w \<le> cutoff\<close>; otherwise it adds \<open>w * form_volume(p)\<close> to \<open>pd_norm\<close> and \<open>w * s\<^sub>k\<close> to
  \<open>result[k]\<close> for every \<open>k < nq\<close>, and nothing to the entries from \<open>nq\<close> on.  The weight
  the kernel runs the body with at point \<open>s\<close> is the product of the weights of all loop
  levels: the buffer handed back is the fold of \<^const>\<open>skip_policy_step\<close> over the points
  of the slice.
\<close>

theorem skip_policy:
  fixes m :: "'a::{zero,one,plus,times,linorder} model"
  assumes "wf_details m (details a)" "private_slots m a M"
    and "pd_start a < num_eval (details a)" "nq a \<le> length result0"
    and "nq a \<le> length (result st)"
  shows "(if (case INVALID m of None \<Rightarrow> False | Some f \<Rightarrow> f (local_values st)) \<or> w \<le> cutoff a
          then result (point_body m a w st) = result st \<and> pd_norm (point_body m a w st) = pd_norm st
          else pd_norm (point_body m a w st) = pd_norm st + w * CALL_VOLUME m (local_values st) \<and>
               (\<forall>k<nq a. result (point_body m a w st) ! k =
                    result st ! k + w * fst (scattering m (q_vec a) k (q_lv m a k (local_values st)))) \<and>
               (\<forall>k\<ge>nq a. result (point_body m a w st) ! k = result st ! k)) \<and>
         kernel_result m a result0 =
           (fst (fold (skip_policy_step m a) (slice_points a) (start_result a result0, start_norm a result0)))
             [nq a := snd (fold (skip_policy_step m a) (slice_points a)
                             (start_result a result0, start_norm a result0))]"
proof -
  have l: "nq a \<le> length (fst (start_result a result0, start_norm a result0))"
    using assms(4) by (simp add: length_start_result)
  have k: "kernel_result m a result0 =
           (fst (fold (skip_policy_step m a) (slice_points a) (start_result a result0, start_norm a result0)))
             [nq a := snd (fold (skip_policy_step m a) (slice_points a)
                             (start_result a result0, start_norm a result0))]"
    unfolding kernel_sweep(1)[OF assms(1-3)] fold_point_step_skip_policy[OF l] ..
  have b: "(if (case INVALID m of None \<Rightarrow> False | Some f \<Rightarrow> f (local_values st)) \<or> w \<le> cutoff a
          then result (point_body m a w st) = result st \<and> pd_norm (point_body m a w st) = pd_norm st
          else pd_norm (point_body m a w st) = pd_norm st + w * CALL_VOLUME m (local_values st) \<and>
               (\<forall>k<nq a. result (point_body m a w st) ! k =
                    result st ! k + w * fst (scattering m (q_vec a) k (q_lv m a k (local_values st)))) \<and>
               (\<forall>k\<ge>nq a. result (point_body m a w st) ! k = result st ! k))"
    using point_body_skip_policy[OF assms(5), of m w] assms(5)
    by (simp add: q_result_nth q_result_beyond split: if_splits)
  show ?thesis using b k by (rule conjI)
qed

theorem skip_policy_witness:
  "wf_details e2_model (details e3_args) \<and> pd_start e3_args < num_eval (details e3_args) \<and>
   nq e3_args \<le> length [9, 9, 9 :: real] \<and>
   kernel_result e2_model e3_args [9, 9, 9] = [5 / 4, 5 / 4, 3 / 4]"
proof -
  have wf: "wf_details e2_model (details e3_args)"
    by (simp add: wf_details_def e2_model_def e3_args_def e2_details_def)
  have pr: "private_slots e2_model e3_args {}"
    by (rule pure_private) (simp add: e2_model_def)
  have h: "pd_start e3_args < num_eval (details e3_args)" "nq e3_args \<le> length [9, 9, 9 :: real]"
    by (simp_all add: e3_args_def e2_details_def)
  have q: "q_lv e2_model e3_args k lv = lv" for k lv
    by (rule pure_q_lv) (simp add: e2_model_def)
  have sp: "slice_points e3_args = [0, 1, 2]"
    by (simp add: slice_points_def e3_args_def e2_details_def upt_rec)
  have st: "start_result e3_args [9, 9, 9] = [0, 0, 9]" "start_norm e3_args [9, 9, 9] = 0"
    by (simp_all add: start_result_def start_norm_def e3_args_def upt_rec)
  have f: "fold (skip_policy_step e2_model e3_args) [0, 1, 2] ([0, 0, 9], 0) = ([5 / 4, 5 / 4, 9], 3 / 4)"
    by (simp add: skip_policy_step_def Let_def q point_values_def pd_value_at_def pd_weight_at_def
        pd_index_def e2_model_def e3_args_def e2_details_def upt_rec)
  have n: "nq e3_args = 2" by (simp add: e3_args_def)
  from skip_policy[OF wf pr h, of "\<lparr>local_values = [], result = [9, 9, 9], pd_norm = 0,
        step = 0, idx = [], visited = []\<rparr>" 0]
  have "kernel_result e2_model e3_args [9, 9, 9] = [5 / 4, 5 / 4, 3 / 4]"
    unfolding sp st f n by simp
  then show ?thesis by (intro conjI wf h)
qed

subsection \<open>Orientation, symmetric form\<close>

lemma view_direct_unfold:
  "view_direct ar sincos pi180 table_theta table_phi call_iq_ac qx qy theta phi table =
     call_iq_ac
       (c_sqrt (view_radicand ar qx qy
                  (view_dqc ar sincos pi180 qx qy theta phi (table_theta table) (table_phi table))))
       (view_dqc ar sincos pi180 qx qy theta phi (table_theta table) (table_phi table)) table"
  by (simp only: view_direct_def view_dqc_def view_radicand_def Let_def case_prod_beta)

lemma c_sqrt_cases:
  "(case c_sqrt r of None \<Rightarrow> r < 0 | Some y \<Rightarrow> 0 \<le> r \<and> 0 \<le> y \<and> y * y = r)"
  by (simp add: c_sqrt_def)

lemma view_radicand_exact: "view_radicand exact_arith qx qy dqc = - dqc * dqc + qx * qx + qy * qy"
  by (simp add: view_radicand_def exact_arith_def)

text \<open>
  Claim C5, amended.  In every arithmetic, \<^verbatim>\<open>view_direct\<close> passes
  \<^verbatim>\<open>sqrt(-dqc*dqc + qx*qx + qy*qy)\<close> to \<^verbatim>\<open>Iqac\<close> as it is, without a clamp: for a radicand
  \<open>r \<ge> 0\<close> the first argument is the non-negative root of \<open>r\<close>, and for \<open>r < 0\<close> it is the
  NaN that \<^verbatim>\<open>sqrt\<close> returns.
\<close>

theorem view_direct_passes_sqrt:
  fixes ar :: c_arith and sincos :: "real \<Rightarrow> real \<times> real" and pi180 qx qy theta phi :: real
    and table_theta table_phi :: "'t \<Rightarrow> real" and table :: 't
  defines "dqc \<equiv> view_dqc ar sincos pi180 qx qy theta phi (table_theta table) (table_phi table)"
  defines "r \<equiv> view_radicand ar qx qy dqc"
  shows "view_direct ar sincos pi180 table_theta table_phi call_iq_ac qx qy theta phi table
           = call_iq_ac (c_sqrt r) dqc table \<and>
         r = fadd ar (fadd ar (fmul ar (- dqc) dqc) (fmul ar qx qx)) (fmul ar qy qy) \<and>
         view_radicand exact_arith qx qy dqc = - dqc * dqc + qx * qx + qy * qy \<and>
         c_sqrt r = (if r < 0 then None else Some (sqrt r)) \<and>
         (case c_sqrt r of None \<Rightarrow> r < 0 | Some y \<Rightarrow> 0 \<le> r \<and> 0 \<le> y \<and> y * y = r)"
  unfolding r_def dqc_def
  by (intro conjI view_direct_unfold c_sqrt_cases view_radicand_exact)
     (simp_all add: c_sqrt_def view_radicand_def)

text \<open>The lines of \<^verbatim>\<open>view_direct\<close> in double arithmetic at \<open>(qx, qy) = (1, 0)\<close>, mean angles
  \<open>(8, 0)\<close> and jitter angles \<open>(82, 0)\<close>, one at a time.\<close>

lemma to_binade_numeral:
  "to_binade (numeral k) y e =
     (if y < 2 ^ 52 then to_binade (pred_numeral k) (2 * y) (e - 1)
      else if 2 ^ 53 \<le> y then to_binade (pred_numeral k) (y / 2) (e + 1)
      else (y, e))"
  by (simp add: numeral_eq_Suc)

lemmas round_double_eval = round_double_def to_binade_numeral round_even_def Let_def

lemma c5_angles:
  "c5_sincos (fmul ieee_arith 8 c5_pi180) = (5014239404989977 / 2 ^ 55, 4459770905381437 / 2 ^ 52)"
  "c5_sincos (fmul ieee_arith 0 c5_pi180) = (0, 1)"
  "c5_sincos (fmul ieee_arith 82 c5_pi180) = (4459770905381437 / 2 ^ 52, 2507119702494989 / 2 ^ 54)"
  by (simp_all add: ieee_arith_def c5_sincos_def c5_pi180_def round_double_eval)

lemma c5_qa:
  "fadd ieee_arith (fmul ieee_arith (fmul ieee_arith 1 1) (4459770905381437 / 2 ^ 52))
     (fmul ieee_arith (fmul ieee_arith 0 0) (4459770905381437 / 2 ^ 52))
   = 4459770905381437 / 2 ^ 52"
  by (simp add: ieee_arith_def round_double_eval)

lemma c5_qb: "fadd ieee_arith (fmul ieee_arith (- 1) 0) (fmul ieee_arith 0 1) = 0"
  by (simp add: ieee_arith_def round_double_eval)

lemma c5_qc:
  "fadd ieee_arith (fmul ieee_arith (fmul ieee_arith 1 (5014239404989977 / 2 ^ 55)) 1)
     (fmul ieee_arith (fmul ieee_arith 0 0) (5014239404989977 / 2 ^ 55))
   = 5014239404989977 / 2 ^ 55"
  by (simp add: ieee_arith_def round_double_eval)

lemma c5_dqc_sum:
  "fadd ieee_arith
     (fsub ieee_arith (fmul ieee_arith (4459770905381437 / 2 ^ 52) (4459770905381437 / 2 ^ 52))
        (fmul ieee_arith (fmul ieee_arith 0 0) (2507119702494989 / 2 ^ 54)))
     (fmul ieee_arith (fmul ieee_arith (5014239404989977 / 2 ^ 55) 1) (2507119702494989 / 2 ^ 54))
   = 1 + 1 / 2 ^ 52"
  by (simp add: ieee_arith_def round_double_eval)

lemma c5_dqc: "view_dqc ieee_arith c5_sincos c5_pi180 1 0 8 0 82 0 = 1 + 1 / 2 ^ 52"
  unfolding view_dqc_def c5_angles Let_def prod.case c5_qa c5_qb c5_qc c5_dqc_sum ..

lemma c5_radicand: "view_radicand ieee_arith 1 0 (1 + 1 / 2 ^ 52) = - (1 / 2 ^ 51)"
  by (simp add: view_radicand_def ieee_arith_def round_double_eval)

text \<open>
  Claim C5 as stated fails.  In double arithmetic, with \<open>(qx, qy) = (1, 0)\<close>, mean angles
  \<open>(8, 0)\<close> and jitter angles \<open>(82, 0)\<close>, \<^verbatim>\<open>dqc\<close> is \<open>1 + 2^-52\<close>, the radicand is \<open>-2^-51\<close>, and
  the first argument passed on is NaN.
\<close>

theorem view_direct_clamp_counterexample:
  "view_direct ieee_arith c5_sincos c5_pi180 fst snd (\<lambda>dqa dqc table. (dqa, dqc)) 1 0 8 0 (82, 0)
     = (None, 1 + 1 / 2 ^ 52)"
  unfolding view_direct_unfold fst_conv snd_conv c5_dqc c5_radicand by (simp add: c_sqrt_def)

subsection \<open>The magnetic block\<close>

lemma magnetic_index_calls:
  "snd (snd (magnetic_index vals slots call spins p qx qy i acc)) = snd (snd acc) @ spin_calls spins i"
  by (cases acc) (simp add: magnetic_index_def magnetic_axis_def spin_calls_def Let_def split: option.splits)

lemma fold_magnetic_index_calls:
  "snd (snd (fold (magnetic_index vals slots call spins p qx qy) is acc))
     = snd (snd acc) @ concat (map (spin_calls spins) is)"
  by (induction "is" arbitrary: acc) (simp_all add: magnetic_index_calls)

lemma spin_calls_gt:
  "(i, ax) \<in> set (spin_calls spins i') \<Longrightarrow> i = i' \<and> (\<exists>xs. spins ! i = Some xs \<and> xs > 1 / 10 ^ 8)"
  by (cases "spins ! i'") (auto simp: spin_calls_def split: if_splits)

text \<open>
  Claim C8.  In the magnetic block, a \<open>q\<close> point with \<open>qsq = qx\<^sup>2 + qy\<^sup>2 \<le> 1e-16\<close> gives
  \<open>scattering = 0\<close> (so \<open>weight0 * scattering\<close> adds nothing), no form factor is called and
  the parameter block is not written; for \<open>qsq > 1e-16\<close> the form factor is called for
  exactly the spin indices \<open>i\<close> with \<open>spins[i] > 1e-8\<close> (once for \<open>i = 0, 3\<close>, twice for the
  spin-flip indices \<open>1, 2\<close>), in increasing order of \<open>i\<close>.
\<close>

theorem magnetic_zero_q:
  fixes qv :: "real list" and q_index :: nat
  defines "qsq \<equiv> qv ! (2 * q_index) * qv ! (2 * q_index) + qv ! (2 * q_index + 1) * qv ! (2 * q_index + 1)"
  shows "(qsq \<le> 1 / 10 ^ 16 \<longrightarrow>
            magnetic_scattering vals slots call spins sin_mspin cos_mspin qv q_index lv = (0, lv, []) \<and>
            weight0 * fst (magnetic_scattering vals slots call spins sin_mspin cos_mspin qv q_index lv) = 0) \<and>
         (qsq > 1 / 10 ^ 16 \<longrightarrow>
            snd (snd (magnetic_scattering vals slots call spins sin_mspin cos_mspin qv q_index lv))
              = concat (map (spin_calls spins) [0, 1, 2, 3]) \<and>
            (\<forall>(i, axis) \<in> set (snd (snd (magnetic_scattering vals slots call spins sin_mspin cos_mspin
                                             qv q_index lv))).
                \<exists>xs. spins ! i = Some xs \<and> xs > 1 / 10 ^ 8))"
proof -
  have u: "[0..<4] = [0, 1, 2, 3]" by (simp add: upt_rec)
  have z: "magnetic_scattering vals slots call spins sin_mspin cos_mspin qv q_index lv = (0, lv, [])"
    if "qsq \<le> 1 / 10 ^ 16"
    using that by (simp add: magnetic_scattering_def Let_def qsq_def not_less[symmetric])
  have c: "snd (snd (magnetic_scattering vals slots call spins sin_mspin cos_mspin qv q_index lv))
              = concat (map (spin_calls spins) [0, 1, 2, 3])"
    if "qsq > 1 / 10 ^ 16"
    using that unfolding u[symmetric]
    by (simp add: magnetic_scattering_def Let_def qsq_def fold_magnetic_index_calls)
  have g: "\<exists>xs. spins ! i = Some xs \<and> xs > 1 / 10 ^ 8"
    if "(i, axis) \<in> set (concat (map (spin_calls spins) [0, 1, 2, 3]))" for i axis
    using that spin_calls_gt[of i axis spins] by auto
  show ?thesis using z c g by (auto simp del: concat.simps list.map)
qed

theorem magnetic_zero_q_witness:
  "([0, 0 :: real] ! (2 * 0) * [0, 0] ! (2 * 0) + [0, 0] ! (2 * 0 + 1) * [0, 0] ! (2 * 0 + 1) \<le> 1 / 10 ^ 16) \<and>
   magnetic_scattering [1, 0, 5, 1, 1, 0, 0, 0, 0] [(6, 0)] (\<lambda>qx qy table. table ! 0)
       (set_spins 1 1) 0 1 [0, 0] 0 [5] = (0, [5], []) \<and>
   ([1, 0 :: real] ! (2 * 0) * [1, 0] ! (2 * 0) + [1, 0] ! (2 * 0 + 1) * [1, 0] ! (2 * 0 + 1) > 1 / 10 ^ 16) \<and>
   snd (snd (magnetic_scattering [1, 0, 5, 1, 1, 0, 0, 0, 0] [(6, 0)] (\<lambda>qx qy table. table ! 0)
       (set_spins 1 1) 0 1 [1, 0] 0 [5])) = [(3, 0)]"
proof -
  have s: "set_spins 1 1 = [Some 0, Some 0, Some 0, Some 1]"
    by (simp add: set_spins_def clip_def c_sqrt_sqrt_def c_sqrt_def)
  have c: "concat (map (spin_calls [Some 0, Some 0, Some 0, Some 1]) [0, 1, 2, 3]) = [(3, 0)]"
    by (simp add: spin_calls_def)
  have z: "[0, 0 :: real] ! (2 * 0) * [0, 0] ! (2 * 0) + [0, 0] ! (2 * 0 + 1) * [0, 0] ! (2 * 0 + 1) \<le> 1 / 10 ^ 16"
    by simp
  have p: "[1, 0 :: real] ! (2 * 0) * [1, 0] ! (2 * 0) + [1, 0] ! (2 * 0 + 1) * [1, 0] ! (2 * 0 + 1) > 1 / 10 ^ 16"
    by simp
  note a = magnetic_zero_q[of "[0, 0]" 0 "[1, 0, 5, 1, 1, 0, 0, 0, 0]" "[(6, 0)]"
      "\<lambda>qx qy table. table ! 0" "set_spins 1 1" 0 1 "[5]" 1]
  note b = magnetic_zero_q[of "[1, 0]" 0 "[1, 0, 5, 1, 1, 0, 0, 0, 0]" "[(6, 0)]"
      "\<lambda>qx qy table. table ! 0" "set_spins 1 1" 0 1 "[5]" 1]
  have 1: "magnetic_scattering [1, 0, 5, 1, 1, 0, 0, 0, 0] [(6, 0)] (\<lambda>qx qy table. table ! 0)
       (set_spins 1 1) 0 1 [0, 0] 0 [5] = (0, [5], [])"
    by (rule conjunct1[OF mp[OF conjunct1[OF a] z]])
  have 2: "snd (snd (magnetic_scattering [1, 0, 5, 1, 1, 0, 0, 0, 0] [(6, 0)] (\<lambda>qx qy table. table ! 0)
       (set_spins 1 1) 0 1 [1, 0] 0 [5])) = [(3, 0)]"
    using conjunct1[OF mp[OF conjunct2[OF b] p]] unfolding s c .
  show ?thesis by (intro conjI z 1 p 2)
qed

subsection \<open>Scaling the weights\<close>

lemma count_active: "length (filter (\<lambda>d. d < na) [0..<n]) = min na n"
  by (induction n) auto

lemma cum_weight_scaled:
  fixes m :: "'a::linordered_field model"
  assumes "\<And>d. k \<le> d \<Longrightarrow> d < k + n \<Longrightarrow>
             pd_weight_at m a' d (pd_index (details a') d s) =
               (if d < na then c * pd_weight_at m a d (pd_index (details a) d s)
                else pd_weight_at m a d (pd_index (details a) d s))"
  shows "cum_weight m a' n k s = c ^ length (filter (\<lambda>d. d < na) [k..<k + n]) * cum_weight m a n k s"
  using assms
proof (induction n arbitrary: k)
  case 0 then show ?case by simp
next
  case (Suc n)
  have u: "[k..<k + Suc n] = k # [Suc k..<Suc k + n]" by (simp add: upt_conv_Cons)
  have IH: "cum_weight m a' n (Suc k) s =
      c ^ length (filter (\<lambda>d. d < na) [Suc k..<Suc k + n]) * cum_weight m a n (Suc k) s"
    by (rule Suc.IH) (use Suc.prems in simp)
  show ?case unfolding u using Suc.prems[of k] by (simp add: IH)
qed

lemma pd_writes_cong:
  assumes "details a' = details a"
    "\<And>d. d < k \<Longrightarrow> pd_value_at m a' d (pd_index (details a) d s) = pd_value_at m a d (pd_index (details a) d s)"
  shows "pd_writes m a' k s lv = pd_writes m a k s lv"
  using assms(2) by (induction k arbitrary: lv) (simp_all add: assms(1))

lemma q_lv_cong: "q_vec a' = q_vec a \<Longrightarrow> q_lv m a' k lv = q_lv m a k lv"
  by (induction k) simp_all

lemma scaled_point:
  fixes m :: "'a::linordered_field model"
  assumes wf: "wf_details m (details a)" and sc: "weights_scaled m a a' c"
    and na: "num_active (details a) \<le> MAX_PD m" and s: "s < num_eval (details a)"
  shows "point_values m a' s = point_values m a s"
    and "point_weight m a' s = c ^ num_active (details a) * point_weight m a s"
proof -
  from sc have d: "details a' = details a" by (simp add: weights_scaled_def)
  have il: "pd_index (details a) k s < pd_length (details a) ! k" if "k < MAX_PD m" for k
    by (rule index_less[OF wf s that])
  have v: "pd_value_at m a' k (pd_index (details a) k s) = pd_value_at m a k (pd_index (details a) k s)"
    if "k < MAX_PD m" for k
    using sc that il[OF that] by (simp add: weights_scaled_def)
  have w: "pd_weight_at m a' k (pd_index (details a') k s) =
      (if k < num_active (details a) then c * pd_weight_at m a k (pd_index (details a) k s)
       else pd_weight_at m a k (pd_index (details a) k s))" if "k < MAX_PD m" for k
    using sc that il[OF that] by (simp add: weights_scaled_def)
  have lv0: "map (\<lambda>i. values_pool a' ! (2 + i)) [0..<NUM_PARS m] = map (\<lambda>i. values_pool a ! (2 + i)) [0..<NUM_PARS m]"
    using sc by (intro map_cong) (simp_all add: weights_scaled_def)
  show "point_values m a' s = point_values m a s"
    unfolding point_values_def lv0 by (rule pd_writes_cong[OF d]) (rule v)
  show "point_weight m a' s = c ^ num_active (details a) * point_weight m a s"
    unfolding point_weight_def
    using cum_weight_scaled[of 0 "MAX_PD m" m a' s "num_active (details a)" c a] w na
    by (simp add: count_active min_def)
qed

lemma scaled_point_step:
  fixes m :: "'a::linordered_field model"
  assumes wf: "wf_details m (details a)" and sc: "weights_scaled m a a' c"
    and na: "num_active (details a) \<le> MAX_PD m" and s: "s < num_eval (details a)"
    and r: "scaled_acc a (c ^ num_active (details a)) acc' acc"
  shows "scaled_acc a (c ^ num_active (details a)) (point_step m a' s acc') (point_step m a s acc)"
proof -
  let ?C = "c ^ num_active (details a)"
  from sc have e: "nq a' = nq a" "q_vec a' = q_vec a"
    and co: "(point_weight m a' s > cutoff a') = (point_weight m a s > cutoff a)"
    using s by (simp_all add: weights_scaled_def)
  note pv = scaled_point(1)[OF wf sc na s] and pw = scaled_point(2)[OF wf sc na s]
  from r have l: "length (fst acc') = length (fst acc)" "nq a \<le> length (fst acc)"
    and k: "\<And>k. k < nq a \<Longrightarrow> fst acc' ! k = ?C * fst acc ! k" and n: "snd acc' = ?C * snd acc"
    by (simp_all add: scaled_acc_def)
  have l': "nq a' \<le> length (fst acc')" using l e by simp
  have p': "point_step m a' s acc' =
     (if (case INVALID m of None \<Rightarrow> True | Some invalid \<Rightarrow> \<not> invalid (point_values m a s))
          \<and> point_weight m a s > cutoff a
      then (q_result m a' (?C * point_weight m a s) (point_values m a s) (fst acc'),
            snd acc' + ?C * point_weight m a s * CALL_VOLUME m (point_values m a s))
      else acc')"
    using point_step_closed[OF l', of m s "snd acc'"] unfolding pv pw
    by (cases "INVALID m") (simp_all add: co[unfolded pw])
  have p: "point_step m a s acc =
     (if (case INVALID m of None \<Rightarrow> True | Some invalid \<Rightarrow> \<not> invalid (point_values m a s))
          \<and> point_weight m a s > cutoff a
      then (q_result m a (point_weight m a s) (point_values m a s) (fst acc),
            snd acc + point_weight m a s * CALL_VOLUME m (point_values m a s))
      else acc)"
    using point_step_closed[OF l(2), of m s "snd acc"] by simp
  have q: "scaled_acc a ?C
      (q_result m a' (?C * point_weight m a s) (point_values m a s) (fst acc'),
            snd acc' + ?C * point_weight m a s * CALL_VOLUME m (point_values m a s))
      (q_result m a (point_weight m a s) (point_values m a s) (fst acc),
            snd acc + point_weight m a s * CALL_VOLUME m (point_values m a s))"
    unfolding scaled_acc_def
  proof (intro conjI allI impI)
    show "length (fst (q_result m a' (?C * point_weight m a s) (point_values m a s) (fst acc'),
            snd acc' + ?C * point_weight m a s * CALL_VOLUME m (point_values m a s))) =
          length (fst (q_result m a (point_weight m a s) (point_values m a s) (fst acc),
            snd acc + point_weight m a s * CALL_VOLUME m (point_values m a s)))"
      using l l' by (simp add: length_q_result)
    show "nq a \<le> length (fst (q_result m a (point_weight m a s) (point_values m a s) (fst acc),
            snd acc + point_weight m a s * CALL_VOLUME m (point_values m a s)))"
      using l by (simp add: length_q_result)
    show "snd (q_result m a' (?C * point_weight m a s) (point_values m a s) (fst acc'),
            snd acc' + ?C * point_weight m a s * CALL_VOLUME m (point_values m a s)) =
          ?C * snd (q_result m a (point_weight m a s) (point_values m a s) (fst acc),
            snd acc + point_weight m a s * CALL_VOLUME m (point_values m a s))"
      by (simp add: n algebra_simps)
    fix j assume j: "j < nq a"
    then have j': "j < nq a'" by (simp add: e)
    show "fst (q_result m a' (?C * point_weight m a s) (point_values m a s) (fst acc'),
            snd acc' + ?C * point_weight m a s * CALL_VOLUME m (point_values m a s)) ! j =
          ?C * fst (q_result m a (point_weight m a s) (point_values m a s) (fst acc),
            snd acc + point_weight m a s * CALL_VOLUME m (point_values m a s)) ! j"
      by (simp add: q_result_nth[OF j] q_result_nth[OF j'] k[OF j] e q_lv_cong[OF e(2)] algebra_simps)
  qed
  show ?thesis unfolding p p' using q r by simp
qed

lemma scaled_fold:
  fixes m :: "'a::linordered_field model"
  assumes wf: "wf_details m (details a)" and sc: "weights_scaled m a a' c"
    and na: "num_active (details a) \<le> MAX_PD m"
  shows "list_all (\<lambda>s. s < num_eval (details a)) ss \<Longrightarrow>
         scaled_acc a (c ^ num_active (details a)) acc' acc \<Longrightarrow>
         scaled_acc a (c ^ num_active (details a))
           (fold (point_step m a') ss acc') (fold (point_step m a) ss acc)"
proof (induction ss arbitrary: acc' acc)
  case Nil then show ?case by simp
next
  case (Cons s ss)
  from Cons.prems(1) have s: "s < num_eval (details a)" and ss: "list_all (\<lambda>s. s < num_eval (details a)) ss"
    by simp_all
  show ?case
    using Cons.IH[OF ss scaled_point_step[OF wf sc na s Cons.prems(2)]] by simp
qed

lemma slice_points_in_range:
  "pd_start a < num_eval (details a) \<Longrightarrow> list_all (\<lambda>s. s < num_eval (details a)) (slice_points a)"
  by (auto simp: slice_points_def list_all_iff)

text \<open>
  Claim C7 (weight linearity).  Let the weights of the active dimensions be scaled by a
  constant \<open>c > 0\<close>, the weights of the idle levels and everything else the kernel reads
  stay the same, and let the cutoffs be such that the same points pass the cutoff
  test.  Then, for a call that starts at \<open>pd_start = 0\<close>, every \<open>result[k]\<close>, \<open>k < nq\<close>, and
  the denominator \<open>result[nq]\<close> are scaled by \<open>c ^ num_active\<close>, and the ratios
  \<open>result[k] / result[nq]\<close> are the same.  Numbers are an ordered field here (the reals):
  the claim is about exact arithmetic.
\<close>

theorem weight_linearity:
  fixes m :: "'a::linordered_field model"
  assumes "wf_details m (details a)" "private_slots m a M"
    and "weights_scaled m a a' c" "0 < c" "num_active (details a) \<le> MAX_PD m"
    and "pd_start a = 0" "0 < num_eval (details a)" "nq a < length result0"
  shows "(\<forall>k\<le>nq a. kernel_result m a' result0 ! k
                       = c ^ num_active (details a) * kernel_result m a result0 ! k) \<and>
         (\<forall>k<nq a. kernel_result m a' result0 ! k / kernel_result m a' result0 ! nq a
                       = kernel_result m a result0 ! k / kernel_result m a result0 ! nq a)"
proof -
  let ?C = "c ^ num_active (details a)"
  let ?start = "(start_result a result0, start_norm a result0)"
  let ?acc = "fold (point_step m a) (slice_points a) ?start"
  let ?acc' = "fold (point_step m a') (slice_points a) ?start"
  from assms(3) have e: "details a' = details a" "nq a' = nq a" "q_vec a' = q_vec a"
    "pd_start a' = pd_start a" "pd_stop a' = pd_stop a"
    by (simp_all add: weights_scaled_def)
  have s: "pd_start a < num_eval (details a)" using assms(6,7) by simp
  have wf': "wf_details m (details a')" and pr': "private_slots m a' M"
    and s': "pd_start a' < num_eval (details a')"
    using assms(1,2) s by (simp_all add: e private_slots_def)
  have sp: "slice_points a' = slice_points a" by (simp add: slice_points_def e)
  have st: "start_result a' result0 = start_result a result0" "start_norm a' result0 = start_norm a result0"
    by (simp_all add: start_result_def start_norm_def e)
  have sr: "start_result a result0 = replicate (nq a) 0 @ drop (nq a) result0"
    using assms(6,8) by (simp add: start_result_def zero_fill)
  have r0: "scaled_acc a ?C ?start ?start"
    using assms(6,8) by (simp add: scaled_acc_def sr start_norm_def nth_append)
  have r: "scaled_acc a ?C ?acc' ?acc"
    by (rule scaled_fold[OF assms(1,3,5) slice_points_in_range[OF s] r0])
  have l: "nq a < length (fst ?acc)" "nq a < length (fst ?acc')"
    using assms(8) by (simp_all add: length_fold_point_step length_start_result e[symmetric])
  have k: "kernel_result m a result0 = (fst ?acc)[nq a := snd ?acc]"
    by (rule kernel_sweep(1)[OF assms(1,2) s])
  have k': "kernel_result m a' result0 = (fst ?acc')[nq a := snd ?acc']"
    using kernel_sweep(1)[OF wf' pr' s', of result0] by (simp add: sp st e)
  have lin: "kernel_result m a' result0 ! j = ?C * kernel_result m a result0 ! j" if "j \<le> nq a" for j
  proof (cases "j = nq a")
    case True
    then show ?thesis using r l by (simp add: k k' scaled_acc_def)
  next
    case False
    with that have "j < nq a" by simp
    then show ?thesis using r l by (simp add: k k' scaled_acc_def)
  qed
  have C: "?C \<noteq> 0" using assms(4) by simp
  have rat: "kernel_result m a' result0 ! j / kernel_result m a' result0 ! nq a
                       = kernel_result m a result0 ! j / kernel_result m a result0 ! nq a" if "j < nq a" for j
  proof -
    have "kernel_result m a' result0 ! j / kernel_result m a' result0 ! nq a
            = (?C * kernel_result m a result0 ! j) / (?C * kernel_result m a result0 ! nq a)"
      using that by (simp only: lin less_imp_le order_refl)
    then show ?thesis by (simp only: mult_divide_mult_cancel_left[OF C])
  qed
  show ?thesis by (intro conjI allI impI lin rat)
qed

theorem weight_linearity_witness:
  "(0 :: real) < 2 \<and>
   num_active (details (e2_args 2 [1, 2] (1 / 10) 0 3)) \<le> MAX_PD e2_model \<and>
   pd_start (e2_args 2 [1, 2] (1 / 10) 0 3) = 0 \<and>
   0 < num_eval (details (e2_args 2 [1, 2] (1 / 10) 0 3)) \<and>
   nq (e2_args 2 [1, 2] (1 / 10) 0 3) < length [9, 9, 9 :: real] \<and>
   kernel_result e2_model
       ((e2_args 2 [1, 2] (1 / 10) 0 3)\<lparr>values_pool := [1, 0, 0, 1, 2, 3, 1 / 2, 1, 1 / 2], cutoff := 1 / 5\<rparr>)
       [9, 9, 9] ! 0
     = 2 ^ num_active (details (e2_args 2 [1, 2] (1 / 10) 0 3))
         * kernel_result e2_model (e2_args 2 [1, 2] (1 / 10) 0 3) [9, 9, 9] ! 0 \<and>
   kernel_result e2_model
       ((e2_args 2 [1, 2] (1 / 10) 0 3)\<lparr>values_pool := [1, 0, 0, 1, 2, 3, 1 / 2, 1, 1 / 2], cutoff := 1 / 5\<rparr>)
       [9, 9, 9] ! 2
     = 2 ^ num_active (details (e2_args 2 [1, 2] (1 / 10) 0 3))
         * kernel_result e2_model (e2_args 2 [1, 2] (1 / 10) 0 3) [9, 9, 9] ! 2"
proof -
  let ?a = "e2_args 2 [1, 2] (1 / 10) 0 3"
  let ?a' = "?a\<lparr>values_pool := [1, 0, 0, 1, 2, 3, 1 / 2, 1, 1 / 2], cutoff := 1 / 5\<rparr>"
  have h: "(0 :: real) < 2" "num_active (details ?a) \<le> MAX_PD e2_model" "pd_start ?a = 0"
    "0 < num_eval (details ?a)" "nq ?a < length [9, 9, 9 :: real]"
    by (simp_all add: e2_args_def e2_details_def e2_model_def)
  have pw: "point_weight e2_model ?a' s = [1 / 2, 1, 1 / 2] ! s" if "s < 3" for s
    using less_3_cases[OF that]
    by (auto simp: point_weight_def e2_model_def e2_args_def e2_details_def pd_weight_at_def pd_index_def)
  have ws: "weights_scaled e2_model ?a ?a' 2"
    unfolding weights_scaled_def
  proof (intro conjI allI impI)
    fix s assume "s < num_eval (details ?a)"
    then have s: "s < 3" by (simp add: e2_args_def e2_details_def)
    show "(cutoff ?a' < point_weight e2_model ?a' s) = (cutoff ?a < point_weight e2_model ?a s)"
      unfolding pw[OF s] e2_point_weight[OF s] using less_3_cases[OF s] by (auto simp: e2_args_def)
  next
    fix d i assume "d < MAX_PD e2_model" "i < pd_length (details ?a) ! d"
    then have d: "d = 0" and i: "i < 3" by (simp_all add: e2_model_def e2_args_def e2_details_def)
    show "pd_value_at e2_model ?a' d i = pd_value_at e2_model ?a d i"
      unfolding d using less_3_cases[OF i]
      by (auto simp: pd_value_at_def e2_model_def e2_args_def e2_details_def)
    show "pd_weight_at e2_model ?a' d i =
           (if d < num_active (details ?a) then 2 * pd_weight_at e2_model ?a d i
            else pd_weight_at e2_model ?a d i)"
      unfolding d using less_3_cases[OF i]
      by (auto simp: pd_weight_at_def e2_model_def e2_args_def e2_details_def)
  next
    fix i assume "i < NUM_PARS e2_model"
    then show "values_pool ?a' ! (2 + i) = values_pool ?a ! (2 + i)"
      by (simp add: e2_model_def e2_args_def)
  qed simp_all
  note t = conjunct1[OF weight_linearity[OF e2_wf e2_private ws h]]
  have n: "nq ?a = 2" by (simp add: e2_args_def)
  have 0: "kernel_result e2_model ?a' [9, 9, 9] ! 0 =
      2 ^ num_active (details ?a) * kernel_result e2_model ?a [9, 9, 9] ! 0"
    using spec[OF t, of 0] by simp
  have 2: "kernel_result e2_model ?a' [9, 9, 9] ! 2 =
      2 ^ num_active (details ?a) * kernel_result e2_model ?a [9, 9, 9] ! 2"
    using spec[OF t, of 2] unfolding n by simp
  show ?thesis by (intro conjI h 0 2)
qed

subsection \<open>The SLD slots are private to the magnetic block\<close>

lemma length_sld_rewrite [simp]:
  "length (sld_rewrite vals xs axis index qx qy pk spin_flip slot lv) = length lv"
  by (cases slot) (simp add: sld_rewrite_def)

lemma length_fold_sld_rewrite [simp]:
  "length (fold (sld_rewrite vals xs axis index qx qy pk spin_flip) slots lv) = length lv"
  by (induction slots arbitrary: lv) simp_all

lemma fold_sld_rewrite_keeps:
  "snd ` set slots \<subseteq> M \<Longrightarrow>
   agree_off M (fold (sld_rewrite vals xs axis index qx qy pk spin_flip) slots lv) lv"
proof (induction slots arbitrary: lv)
  case Nil show ?case by (simp add: agree_off_refl)
next
  case (Cons slot slots)
  obtain mo so where s: "slot = (mo, so)" by (cases slot)
  have "agree_off M (sld_rewrite vals xs axis index qx qy pk spin_flip slot lv) lv"
    using Cons.prems by (simp add: s sld_rewrite_def agree_off_update_left agree_off_refl)
  moreover have "agree_off M (fold (sld_rewrite vals xs axis index qx qy pk spin_flip) slots
        (sld_rewrite vals xs axis index qx qy pk spin_flip slot lv))
      (sld_rewrite vals xs axis index qx qy pk spin_flip slot lv)"
    by (rule Cons.IH) (use Cons.prems in simp)
  ultimately show ?case by (auto intro: agree_off_trans)
qed

lemma fold_sld_rewrite_equal:
  "length lv = length lv' \<Longrightarrow>
   (\<And>i. i < length lv \<Longrightarrow> i \<in> snd ` set slots \<or> lv ! i = lv' ! i) \<Longrightarrow>
   fold (sld_rewrite vals xs axis index qx qy pk spin_flip) slots lv =
   fold (sld_rewrite vals xs axis index qx qy pk spin_flip) slots lv'"
proof (induction slots arbitrary: lv lv')
  case Nil
  then show ?case by (simp add: list_eq_iff_nth_eq)
next
  case (Cons slot slots)
  obtain mo so where s: "slot = (mo, so)" by (cases slot)
  show ?case
  proof (simp, rule Cons.IH)
    show "length (sld_rewrite vals xs axis index qx qy pk spin_flip slot lv) =
          length (sld_rewrite vals xs axis index qx qy pk spin_flip slot lv')"
      using Cons.prems(1) by simp
    fix i assume "i < length (sld_rewrite vals xs axis index qx qy pk spin_flip slot lv)"
    then have i: "i < length lv" by simp
    show "i \<in> snd ` set slots \<or>
          sld_rewrite vals xs axis index qx qy pk spin_flip slot lv ! i =
          sld_rewrite vals xs axis index qx qy pk spin_flip slot lv' ! i"
      using Cons.prems(2)[OF i] i Cons.prems(1)
      by (cases "i = so") (auto simp: s sld_rewrite_def)
  qed
qed

lemma magnetic_axis_rel:
  assumes "mag_rel (snd ` set slots) acc acc'"
  shows "magnetic_axis vals slots call qx qy xs index pk spin_flip axis acc =
         magnetic_axis vals slots call qx qy xs index pk spin_flip axis acc'"
proof -
  obtain s lv c where a: "acc = (s, lv, c)" by (cases acc)
  obtain s' lv' c' where a': "acc' = (s', lv', c')" by (cases acc')
  from assms have e: "s' = s" "c' = c" and ag: "agree_off (snd ` set slots) lv lv'"
    by (simp_all add: mag_rel_def a a')
  have "fold (sld_rewrite vals xs axis index qx qy pk spin_flip) slots lv =
        fold (sld_rewrite vals xs axis index qx qy pk spin_flip) slots lv'"
    using ag by (intro fold_sld_rewrite_equal) (auto simp: agree_off_def)
  then show ?thesis by (simp add: magnetic_axis_def a a' e)
qed

lemma mag_rel_refl: "mag_rel M acc acc"
  by (simp add: mag_rel_def agree_off_refl)

lemma fold_magnetic_axis_rel:
  assumes "mag_rel (snd ` set slots) acc acc'"
  shows "mag_rel (snd ` set slots)
           (fold (magnetic_axis vals slots call qx qy xs index pk spin_flip) axes acc)
           (fold (magnetic_axis vals slots call qx qy xs index pk spin_flip) axes acc')"
proof (cases axes)
  case Nil
  then show ?thesis using assms by simp
next
  case (Cons ax axes')
  then show ?thesis by (simp add: magnetic_axis_rel[OF assms] mag_rel_refl)
qed

lemma magnetic_index_rel:
  assumes "mag_rel (snd ` set slots) acc acc'"
  shows "mag_rel (snd ` set slots)
           (magnetic_index vals slots call spins p qx qy index acc)
           (magnetic_index vals slots call spins p qx qy index acc')"
  using assms fold_magnetic_axis_rel[OF assms]
  by (simp add: magnetic_index_def Let_def split: option.splits)

lemma fold_magnetic_index_rel:
  "mag_rel (snd ` set slots) acc acc' \<Longrightarrow>
   mag_rel (snd ` set slots)
     (fold (magnetic_index vals slots call spins p qx qy) is acc)
     (fold (magnetic_index vals slots call spins p qx qy) is acc')"
  by (induction "is" arbitrary: acc acc') (simp_all add: magnetic_index_rel)

lemma magnetic_axis_keeps:
  "agree_off (snd ` set slots)
     (fst (snd (magnetic_axis vals slots call qx qy xs index pk spin_flip axis acc))) (fst (snd acc))"
  by (cases acc) (simp add: magnetic_axis_def Let_def fold_sld_rewrite_keeps)

lemma fold_magnetic_axis_keeps:
  "agree_off (snd ` set slots)
     (fst (snd (fold (magnetic_axis vals slots call qx qy xs index pk spin_flip) axes acc))) (fst (snd acc))"
proof (induction axes arbitrary: acc)
  case Nil show ?case by (simp add: agree_off_refl)
next
  case (Cons ax axes)
  show ?case
    using Cons[of "magnetic_axis vals slots call qx qy xs index pk spin_flip ax acc"]
      magnetic_axis_keeps[of slots vals call qx qy xs index pk spin_flip ax acc]
    by (auto intro: agree_off_trans)
qed

lemma magnetic_index_keeps:
  "agree_off (snd ` set slots)
     (fst (snd (magnetic_index vals slots call spins p qx qy index acc))) (fst (snd acc))"
  by (simp add: magnetic_index_def Let_def fold_magnetic_axis_keeps agree_off_refl split: option.splits)

lemma fold_magnetic_index_keeps:
  "agree_off (snd ` set slots)
     (fst (snd (fold (magnetic_index vals slots call spins p qx qy) is acc))) (fst (snd acc))"
proof (induction "is" arbitrary: acc)
  case Nil show ?case by (simp add: agree_off_refl)
next
  case (Cons i "is")
  show ?case
    using Cons[of "magnetic_index vals slots call spins p qx qy i acc"]
      magnetic_index_keeps[of slots vals call spins p qx qy i acc]
    by (auto intro: agree_off_trans)
qed

lemma magnetic_block_private:
  assumes "agree_off (snd ` set slots) lv lv'"
  shows "fst (magnetic_block vals slots call spins sin_mspin cos_mspin qv q_index lv) =
         fst (magnetic_block vals slots call spins sin_mspin cos_mspin qv q_index lv')"
    and "agree_off (snd ` set slots)
           (snd (magnetic_block vals slots call spins sin_mspin cos_mspin qv q_index lv)) lv"
proof -
  have r: "mag_rel (snd ` set slots) (0, lv, []) (0, lv', [])"
    using assms by (simp add: mag_rel_def)
  show "fst (magnetic_block vals slots call spins sin_mspin cos_mspin qv q_index lv) =
         fst (magnetic_block vals slots call spins sin_mspin cos_mspin qv q_index lv')"
    using fold_magnetic_index_rel[OF r]
    by (simp add: magnetic_block_def magnetic_scattering_def Let_def case_prod_beta mag_rel_def)
  show "agree_off (snd ` set slots)
           (snd (magnetic_block vals slots call spins sin_mspin cos_mspin qv q_index lv)) lv"
    using fold_magnetic_index_keeps[of slots vals call spins _ _ _ "[0..<4]" "(0, lv, [])"]
    by (simp add: magnetic_block_def magnetic_scattering_def Let_def case_prod_beta agree_off_refl)
qed

text \<open>
  So a model whose \<open>scattering\<close> is the magnetic block has the magnetic SLD slots as
  private slots, as soon as \<^verbatim>\<open>CALL_VOLUME\<close> and \<^verbatim>\<open>INVALID\<close> do not read them.
\<close>

lemma magnetic_private_slots:
  assumes "scattering m = magnetic_block vals slots call spins sin_mspin cos_mspin"
    and "\<And>lv lv'. agree_off (snd ` set slots) lv lv' \<Longrightarrow> CALL_VOLUME m lv = CALL_VOLUME m lv'"
    and "\<And>lv lv' invalid. agree_off (snd ` set slots) lv lv' \<Longrightarrow> INVALID m = Some invalid \<Longrightarrow>
           invalid lv = invalid lv'"
  shows "private_slots m a (snd ` set slots)"
  unfolding private_slots_def
proof (intro allI impI conjI)
  fix lv lv' :: "real list" and q_index
  assume ag: "agree_off (snd ` set slots) lv lv'"
  show "CALL_VOLUME m lv = CALL_VOLUME m lv'" by (rule assms(2)[OF ag])
  show "case INVALID m of None \<Rightarrow> True | Some invalid \<Rightarrow> invalid lv = invalid lv'"
    using assms(3)[OF ag] by (simp split: option.splits)
  show "fst (scattering m (q_vec a) q_index lv) = fst (scattering m (q_vec a) q_index lv')"
    unfolding assms(1) by (rule magnetic_block_private(1)[OF ag])
  show "agree_off (snd ` set slots) (snd (scattering m (q_vec a) q_index lv)) lv"
    unfolding assms(1) by (rule magnetic_block_private(2)[OF ag])
qed

end
